theory Spec2Isabelle
  imports Main "HOL-Library.Word"
begin

unbundle bit_operations_syntax

section \<open>Strings of UTF-16 code units\<close>

text \<open>
  A \<^verbatim>\<open>WCHAR\<close> is a 16-bit code unit. A C string is modelled by the list of its code
  units before the terminating NUL; reading the terminator gives 0.
\<close>

type_synonym wchar = "16 word"
type_synonym wstr = "wchar list"
type_synonym dword = "32 word"

definition W :: "string \<Rightarrow> wstr" where
  "W s = map (\<lambda>c. of_nat (of_char c)) s"

text \<open>The one-character string \<^verbatim>\<open>\\\<close>, for writing paths as literals.\<close>

definition BS :: string where
  "BS = [CHR 0x5C]"

definition at :: "wstr \<Rightarrow> nat \<Rightarrow> wchar" where
  "at s i = (if i < length s then s ! i else 0)"

definition c_str :: "wstr \<Rightarrow> wstr" where
  "c_str buf = takeWhile (\<lambda>c. c \<noteq> 0) buf"

abbreviation BSL :: wchar where "BSL \<equiv> 92"
abbreviation FSL :: wchar where "FSL \<equiv> 47"
abbreviation COLON :: wchar where "COLON \<equiv> 58"
abbreviation DOT :: wchar where "DOT \<equiv> 46"
abbreviation STAR :: wchar where "STAR \<equiv> 42"
abbreviation QMARK :: wchar where "QMARK \<equiv> 63"
abbreviation HASH :: wchar where "HASH \<equiv> 35"
abbreviation PERCENT :: wchar where "PERCENT \<equiv> 37"
abbreviation ATSIGN :: wchar where "ATSIGN \<equiv> 64"
abbreviation SPACE :: wchar where "SPACE \<equiv> 32"
abbreviation TAB :: wchar where "TAB \<equiv> 9"

subsection \<open>Character classes\<close>

text \<open>
  Modelled from the spec: the classification and case tables behind \<^verbatim>\<open>isalphaW\<close>,
  \<^verbatim>\<open>isalnumW\<close>, \<^verbatim>\<open>isdigitW\<close>, \<^verbatim>\<open>isxdigitW\<close>, \<^verbatim>\<open>islowerW\<close> and \<^verbatim>\<open>tolowerW\<close>
  (wine/unicode.h) are not part of the source file. The spec speaks of an ASCII
  classification table and of case folding of ASCII letters only, so the classes are the
  ASCII ones and code units from 128 on belong to none of them.
\<close>

definition isdigitW :: "wchar \<Rightarrow> bool" where
  "isdigitW c = (48 \<le> c \<and> c \<le> 57)"

definition isupperW :: "wchar \<Rightarrow> bool" where
  "isupperW c = (65 \<le> c \<and> c \<le> 90)"

definition islowerW :: "wchar \<Rightarrow> bool" where
  "islowerW c = (97 \<le> c \<and> c \<le> 122)"

definition isalphaW :: "wchar \<Rightarrow> bool" where
  "isalphaW c = (isupperW c \<or> islowerW c)"

definition isalnumW :: "wchar \<Rightarrow> bool" where
  "isalnumW c = (isalphaW c \<or> isdigitW c)"

definition isxdigitW :: "wchar \<Rightarrow> bool" where
  "isxdigitW c = (isdigitW c \<or> (65 \<le> c \<and> c \<le> 70) \<or> (97 \<le> c \<and> c \<le> 102))"

definition tolowerW :: "wchar \<Rightarrow> wchar" where
  "tolowerW c = (if isupperW c then c + 32 else c)"

text \<open>
  \<^verbatim>\<open>strncmpW(s, p, n) == 0\<close> and \<^verbatim>\<open>strncmpiW(s, p, n) == 0\<close> for a constant \<open>p\<close>
  of \<open>n\<close> units, none of them NUL: the string has at least \<open>n\<close> units before its
  terminator and they equal those of \<open>p\<close>, exactly or after case folding.
\<close>

definition strncmpW_eq :: "wstr \<Rightarrow> wstr \<Rightarrow> bool" where
  "strncmpW_eq s p = (take (length p) (c_str s) = p)"

definition strncmpiW_eq :: "wstr \<Rightarrow> wstr \<Rightarrow> bool" where
  "strncmpiW_eq s p = (map tolowerW (take (length p) (c_str s)) = map tolowerW p)"

section \<open>Root classification\<close>

definition is_prefixed_unc :: "wstr \<Rightarrow> bool" where
  "is_prefixed_unc s = strncmpiW_eq s [BSL, BSL, QMARK, BSL, 85, 78, 67, BSL]"

definition is_prefixed_disk :: "wstr \<Rightarrow> bool" where
  "is_prefixed_disk s =
     (strncmpW_eq s [BSL, BSL, QMARK, BSL] \<and> isalphaW (at s 4) \<and> at s 5 = COLON)"

text \<open>The loop over \<open>i = 0 .. 37\<close> of \<^verbatim>\<open>is_prefixed_volume\<close>, one test per position.\<close>

definition volume_guid_ok :: "wstr \<Rightarrow> nat \<Rightarrow> bool" where
  "volume_guid_ok guid i =
     (if i = 0 then at guid i = 123
      else if i = 9 \<or> i = 14 \<or> i = 19 \<or> i = 24 then at guid i = 45
      else if i = 37 then at guid i = 125
      else isalnumW (at guid i))"

definition is_prefixed_volume :: "wstr \<Rightarrow> bool" where
  "is_prefixed_volume s =
     (strncmpiW_eq s [BSL, BSL, QMARK, BSL, 86, 111, 108, 117, 109, 101] \<and>
      list_all (volume_guid_ok (drop 10 s)) [0 ..< 38])"

text \<open>
  \<^verbatim>\<open>get_root_end\<close>: the index of the last code unit of the root, \<open>None\<close> for the
  NULL result.
\<close>

definition get_root_end :: "wstr \<Rightarrow> nat option" where
  "get_root_end path =
     (if is_prefixed_volume path then (if at path 48 = BSL then Some 48 else Some 47)
      else if is_prefixed_unc path then Some 7
      else if is_prefixed_disk path then (if at path 6 = BSL then Some 6 else Some 5)
      else if at path 0 = BSL \<and> at path 1 = BSL then Some 1
      else if at path 0 = BSL then Some 0
      else if isalphaW (at path 0) \<and> at path 1 = COLON then
        (if at path 2 = BSL then Some 2 else Some 1)
      else None)"

section \<open>Status codes and option bits\<close>

datatype hresult = S_OK | S_FALSE | E_INVALIDARG | E_OUTOFMEMORY | E_POINTER
  | ERROR_FILENAME_EXCED_RANGE | STRSAFE_E_INSUFFICIENT_BUFFER | URL_E_INVALID_SYNTAX

text \<open>
  Modelled from the spec: the option bits of the canonicalization configuration and the
  two length ceilings are declared in pathcch.h and windef.h, which are not part of the
  source file. Each option of the spec's configuration is one bit of the flags word; the
  values are those of the public header.
\<close>

definition PATHCCH_ALLOW_LONG_PATHS :: dword where "PATHCCH_ALLOW_LONG_PATHS = 0x01"
definition PATHCCH_FORCE_ENABLE_LONG_NAME_PROCESS :: dword where
  "PATHCCH_FORCE_ENABLE_LONG_NAME_PROCESS = 0x02"
definition PATHCCH_FORCE_DISABLE_LONG_NAME_PROCESS :: dword where
  "PATHCCH_FORCE_DISABLE_LONG_NAME_PROCESS = 0x04"
definition PATHCCH_DO_NOT_NORMALIZE_SEGMENTS :: dword where
  "PATHCCH_DO_NOT_NORMALIZE_SEGMENTS = 0x08"
definition PATHCCH_ENSURE_IS_EXTENDED_LENGTH_PATH :: dword where
  "PATHCCH_ENSURE_IS_EXTENDED_LENGTH_PATH = 0x10"
definition PATHCCH_ENSURE_TRAILING_SLASH :: dword where
  "PATHCCH_ENSURE_TRAILING_SLASH = 0x20"

definition MAX_PATH :: nat where "MAX_PATH = 260"
definition PATHCCH_MAX_CCH :: nat where "PATHCCH_MAX_CCH = 0x8000"

text \<open>The C test \<^verbatim>\<open>flags & bit\<close>.\<close>

definition has :: "dword \<Rightarrow> dword \<Rightarrow> bool" where
  "has flags b = (flags AND b \<noteq> 0)"

section \<open>Buffers\<close>

text \<open>
  An output buffer is an array of code units of fixed size, addressed by index. A string
  in it ends at the first NUL; what lies behind that NUL stays in memory and can be read
  again by index.
\<close>

fun store :: "wstr \<Rightarrow> nat \<Rightarrow> wstr \<Rightarrow> wstr" where
  "store buf i [] = buf"
| "store buf i (x # xs) = store (buf[i := x]) (Suc i) xs"

definition strcpyW :: "wstr \<Rightarrow> nat \<Rightarrow> nat \<Rightarrow> wstr" where
  "strcpyW buf to from = store buf to (c_str (drop from buf) @ [0])"

definition PathCchStripPrefix :: "wstr \<Rightarrow> nat \<Rightarrow> hresult \<times> wstr" where
  "PathCchStripPrefix path sz =
     (if sz = 0 \<or> sz > PATHCCH_MAX_CCH then (E_INVALIDARG, path)
      else if is_prefixed_unc path then
        (if sz < length (c_str (drop 8 path)) + 3 then (E_INVALIDARG, path)
         else (S_OK, strcpyW path 2 8))
      else if is_prefixed_disk path then
        (if sz < length (c_str (drop 4 path)) + 1 then (E_INVALIDARG, path)
         else (S_OK, strcpyW path 0 4))
      else (S_FALSE, path))"

definition PathCchAddBackslashEx :: "wstr \<Rightarrow> nat \<Rightarrow> hresult \<times> wstr" where
  "PathCchAddBackslashEx path sz =
     (let len = length (c_str path);
          needs_termination = (sz \<noteq> 0 \<and> len \<noteq> 0 \<and> at path (len - 1) \<noteq> BSL)
      in if len \<ge> (if needs_termination then sz - 1 else sz)
         then (STRSAFE_E_INSUFFICIENT_BUFFER, path)
         else if \<not> needs_termination then (S_FALSE, path)
         else (S_OK, store path len [BSL, 0]))"

definition PathCchAddBackslash :: "wstr \<Rightarrow> nat \<Rightarrow> hresult \<times> wstr" where
  "PathCchAddBackslash path sz = PathCchAddBackslashEx path sz"

section \<open>Path canonicalization\<close>

text \<open>
  The state of the scan of \<^verbatim>\<open>PathAllocCanonicalize\<close>: \<open>src\<close> and \<open>dst\<close> are the
  offsets of the two pointers into the input and into the buffer, \<open>root_end\<close> the offset
  of the root's last unit in the buffer (\<open>None\<close> for NULL).
\<close>

record cstate =
  src :: nat
  buffer :: wstr
  dst :: nat
  root_end :: "nat option"

text \<open>
  ``Remove characters until a \<^verbatim>\<open>\\\<close> is encountered'': the inner \<^verbatim>\<open>while (dst > buffer)\<close>,
  which writes NUL over every unit it steps back over, the backslash included.
\<close>

fun remove_segment :: "wstr \<Rightarrow> nat \<Rightarrow> wstr \<times> nat" where
  "remove_segment b 0 = (b, 0)"
| "remove_segment b (Suc d) =
     (if at b d = BSL then (b[d := 0], d) else remove_segment (b[d := 0]) d)"

text \<open>``If X:\<^verbatim>\<open>\\\<close> is not complete, then complete it'', at the end of a dot iteration.\<close>

definition complete_root :: "wstr \<Rightarrow> cstate \<Rightarrow> cstate" where
  "complete_root p st =
     (let b = buffer st in
      if isalphaW (at b 0) \<and> at b 1 = COLON \<and> at b 2 \<noteq> BSL
      then st\<lparr>root_end := Some 2, dst := 3, buffer := b[2 := BSL],
              src := (if at p (src st) = BSL then src st + 1 else src st)\<rparr>
      else st)"

text \<open>The test ``the \<^verbatim>\<open>\\\<close> before the dots is not part of the root''.\<close>

definition above_root :: "cstate \<Rightarrow> bool" where
  "above_root st =
     (dst st > 0 \<and> at (buffer st) (dst st - 1) = BSL \<and>
      (case root_end st of None \<Rightarrow> True | Some r \<Rightarrow> dst st - 1 > r))"

definition copy_units :: "wstr \<Rightarrow> nat \<Rightarrow> cstate \<Rightarrow> cstate" where
  "copy_units p n st =
     st\<lparr>buffer := store (buffer st) (dst st) (map (at p) [src st ..< src st + n]),
        dst := dst st + n, src := src st + n\<rparr>"

text \<open>One iteration of \<^verbatim>\<open>while (*src)\<close>.\<close>

definition canon_step :: "wstr \<Rightarrow> dword \<Rightarrow> cstate \<Rightarrow> cstate" where
  "canon_step p flags st =
     (let s = src st; b = buffer st; d = dst st;
          keep = has flags PATHCCH_DO_NOT_NORMALIZE_SEGMENTS
      in
      if at p s = DOT then
        (if at p (s + 1) = DOT then
           (if d > 0 \<and> at b (d - 1) = STAR then copy_units p 1 st
            else if d > 0 \<and> ((keep \<and> at b (d - 1) \<noteq> BSL) \<or>
                      (at b (d - 1) \<noteq> BSL \<and> at p (s + 2) \<noteq> BSL \<and> at p (s + 2) \<noteq> 0))
            then copy_units p 2 st
            else if above_root st then
              (case remove_segment (b[d - 1 := 0]) (d - 1) of
                 (b', d') \<Rightarrow> complete_root p (st\<lparr>buffer := b', dst := d', src := s + 2\<rparr>))
            else if at p (s + 2) = BSL then complete_root p (st\<lparr>src := s + 3\<rparr>)
            else complete_root p (st\<lparr>src := s + 2\<rparr>))
         else
           (if d > 0 \<and> ((keep \<and> at b (d - 1) \<noteq> BSL) \<or>
                      (at b (d - 1) \<noteq> BSL \<and> at p (s + 1) \<noteq> BSL \<and> at p (s + 1) \<noteq> 0) \<or>
                      at b (d - 1) = STAR)
            then copy_units p 1 st
            else if above_root st then complete_root p (st\<lparr>dst := d - 1, src := s + 1\<rparr>)
            else if at p (s + 1) = BSL then complete_root p (st\<lparr>src := s + 2\<rparr>)
            else complete_root p (st\<lparr>src := s + 1\<rparr>)))
      else copy_units p 1 st)"

lemma complete_root_src: "src st \<le> src (complete_root p st)"
  by (simp add: complete_root_def Let_def)

lemma canon_step_src: "src st < src (canon_step p flags st)"
proof -
  have c: "\<And>st'. src st < src st' \<Longrightarrow> src st < src (complete_root p st')"
    using complete_root_src order_less_le_trans by blast
  show ?thesis
    unfolding canon_step_def Let_def
    by (auto simp: copy_units_def split: prod.splits intro!: c)
qed

lemma at_nonzero_less: "at p i \<noteq> 0 \<Longrightarrow> i < length p"
  by (simp add: at_def split: if_splits)

function canon_loop :: "wstr \<Rightarrow> dword \<Rightarrow> cstate \<Rightarrow> cstate" where
  "canon_loop p flags st =
     (if at p (src st) = 0 then st else canon_loop p flags (canon_step p flags st))"
  by pat_completeness auto
termination
proof (relation "measure (\<lambda>(p, flags, st). length p - src st)")
  show "wf (measure (\<lambda>(p, flags, st). length p - src st))" by simp
next
  fix p :: wstr and flags :: dword and st :: cstate
  assume "at p (src st) \<noteq> 0"
  then have "src st < length p" by (rule at_nonzero_less)
  moreover have "src st < src (canon_step p flags st)" by (rule canon_step_src)
  ultimately show "((p, flags, canon_step p flags st), (p, flags, st))
      \<in> measure (\<lambda>(p, flags, st). length p - src st)"
    by simp
qed

declare canon_loop.simps [simp del]

text \<open>``Copy path root'': the state before the scan.\<close>

definition copy_root :: "wstr \<Rightarrow> cstate" where
  "copy_root p =
     (let len = length p; buf = replicate (len + 6) 0 in
      case get_root_end p of
        None \<Rightarrow> \<lparr>src = 0, buffer = buf, dst = 0, root_end = None\<rparr>
      | Some r \<Rightarrow>
          (let b = store buf 0 (take (r + 1) p) in
           case PathCchStripPrefix b (len + 6) of
             (hr, b') \<Rightarrow>
               if hr = S_OK then
                 (let b'' = (if isalphaW (at b' 0) \<and> at b' 1 = COLON \<and> at b' 2 \<noteq> BSL
                             then b'[2 := BSL, 3 := 0] else b');
                      d = length (c_str b'')
                  in \<lparr>src = r + 1, buffer = b'', dst = d, root_end = Some d\<rparr>)
               else \<lparr>src = r + 1, buffer = b', dst = r + 1, root_end = Some r\<rparr>))"

text \<open>The validation of the flags at the head of \<^verbatim>\<open>PathAllocCanonicalize\<close>.\<close>

definition invalid_flags :: "dword \<Rightarrow> bool" where
  "invalid_flags flags =
     ((has flags PATHCCH_FORCE_ENABLE_LONG_NAME_PROCESS \<and>
       has flags PATHCCH_FORCE_DISABLE_LONG_NAME_PROCESS)
      \<or> (has flags (PATHCCH_FORCE_ENABLE_LONG_NAME_PROCESS OR PATHCCH_FORCE_DISABLE_LONG_NAME_PROCESS)
          \<and> \<not> has flags PATHCCH_ALLOW_LONG_PATHS)
      \<or> (has flags PATHCCH_ENSURE_IS_EXTENDED_LENGTH_PATH \<and> has flags PATHCCH_ALLOW_LONG_PATHS))"

text \<open>
  The buffer after the scan: ``End the path'' and ``If result path is empty, fill in
  \<^verbatim>\<open>\\\<close>''.
\<close>

definition canon_scan :: "wstr \<Rightarrow> dword \<Rightarrow> wstr" where
  "canon_scan p flags =
     (let st = canon_loop p flags (copy_root p);
          b = (buffer st)[dst st := 0]
      in if at b 0 = 0 then b[0 := BSL, 1 := 0] else b)"

text \<open>The test of ``Extend the path if needed''.\<close>

definition needs_extension :: "wstr \<Rightarrow> dword \<Rightarrow> bool" where
  "needs_extension b flags =
     (((length (c_str b) + 1 > MAX_PATH \<and> isalphaW (at b 0) \<and> at b 1 = COLON)
       \<or> (isalphaW (at b 0) \<and> at b 1 = COLON \<and> has flags PATHCCH_ENSURE_IS_EXTENDED_LENGTH_PATH))
      \<and> \<not> has flags PATHCCH_FORCE_ENABLE_LONG_NAME_PROCESS)"

definition extend_path :: "wstr \<Rightarrow> wstr" where
  "extend_path b = store b 0 ([BSL, BSL, QMARK, BSL] @ c_str b @ [0])"

text \<open>
  \<^verbatim>\<open>PathAllocCanonicalize\<close>, for non-null \<^verbatim>\<open>path_in\<close> and \<^verbatim>\<open>path_out\<close> and an
  allocation that succeeds. \<open>Inl\<close> is a failure status, with \<^verbatim>\<open>*path_out\<close> set to NULL;
  \<open>Inr\<close> is \<^verbatim>\<open>S_OK\<close> with the string left in \<^verbatim>\<open>*path_out\<close>. The size handed to
  \<^verbatim>\<open>PathCchAddBackslash\<close> is \<^verbatim>\<open>buffer_size\<close>, a count of bytes.
\<close>

definition PathAllocCanonicalize :: "wstr \<Rightarrow> dword \<Rightarrow> hresult + wstr" where
  "PathAllocCanonicalize path_in flags =
     (if invalid_flags flags then Inl E_INVALIDARG
      else
        (let p = c_str path_in; len = length p in
         if (len + 1 > MAX_PATH \<and>
             \<not> has flags (PATHCCH_ALLOW_LONG_PATHS OR PATHCCH_ENSURE_IS_EXTENDED_LENGTH_PATH))
            \<or> len + 1 > PATHCCH_MAX_CCH
         then Inl ERROR_FILENAME_EXCED_RANGE
         else
           (let flags' = (if has flags PATHCCH_ENSURE_IS_EXTENDED_LENGTH_PATH
                          then flags OR PATHCCH_DO_NOT_NORMALIZE_SEGMENTS else flags);
                b = canon_scan p flags';
                b1 = (if needs_extension b flags' then extend_path b else b);
                b2 = (if has flags' PATHCCH_ENSURE_TRAILING_SLASH
                      then snd (PathCchAddBackslash b1 ((len + 6) * 2)) else b1)
            in Inr (c_str b2))))"

section \<open>Combining two paths\<close>

text \<open>
  \<^verbatim>\<open>get_next_segment\<close> on the string at offset \<open>i\<close> of a buffer: whether the segment
  ends with a backslash, and the offset behind it.
\<close>

definition get_next_segment :: "wstr \<Rightarrow> nat \<Rightarrow> bool \<times> nat" where
  "get_next_segment b i =
     (let k = i + length (takeWhile (\<lambda>c. c \<noteq> 0 \<and> c \<noteq> BSL) (drop i b))
      in if at b k = BSL then (True, k + 1) else (False, k))"

definition PathCchSkipRoot :: "wstr \<Rightarrow> hresult \<times> nat option" where
  "PathCchSkipRoot path =
     (if at path 0 = 0
         \<or> (strncmpiW_eq path [BSL, BSL, QMARK] \<and> \<not> is_prefixed_volume path
             \<and> \<not> is_prefixed_unc path \<and> \<not> is_prefixed_disk path)
      then (E_INVALIDARG, None)
      else
        (case get_root_end path of
           None \<Rightarrow> (E_INVALIDARG, None)
         | Some r \<Rightarrow>
             (let e = r + 1 in
              if is_prefixed_unc path then
                (S_OK, Some (snd (get_next_segment path (snd (get_next_segment path e)))))
              else if at path 0 = BSL \<and> at path 1 = BSL \<and> at path 2 \<noteq> QMARK then
                (let e1 = snd (get_next_segment path e) in
                 if at path e1 \<noteq> BSL then (S_OK, Some (snd (get_next_segment path e1)))
                 else (S_OK, Some e1))
              else (S_OK, Some e))))"

definition PathCchStripToRoot :: "wstr \<Rightarrow> nat \<Rightarrow> hresult \<times> wstr" where
  "PathCchStripToRoot path sz =
     (if at path 0 = 0 \<or> sz = 0 \<or> sz > PATHCCH_MAX_CCH then (E_INVALIDARG, path)
      else if is_prefixed_unc path \<or> (at path 0 = BSL \<and> at path 1 = BSL \<and> at path 2 \<noteq> QMARK) then
        (case get_next_segment path (if is_prefixed_unc path then 8 else 3) of
           (ok1, e1) \<Rightarrow>
             if \<not> ok1 then (S_FALSE, path)
             else
               (case get_next_segment path e1 of
                  (ok2, e2) \<Rightarrow>
                    if \<not> ok2 then (S_FALSE, path)
                    else if e2 \<ge> sz then (E_INVALIDARG, path)
                    else (S_OK, path[e2 - 1 := 0])))
      else
        (case PathCchSkipRoot path of
           (hr, Some e) \<Rightarrow>
             if hr \<noteq> S_OK then (E_INVALIDARG, path)
             else if e \<ge> sz then (E_INVALIDARG, path)
             else if at path e = 0 then (S_FALSE, path)
             else (S_OK, path[e := 0])
         | (hr, None) \<Rightarrow> (E_INVALIDARG, path)))"

definition lstrcatW :: "wstr \<Rightarrow> wstr \<Rightarrow> wstr" where
  "lstrcatW buf s = store buf (length (c_str buf)) (c_str s @ [0])"

text \<open>
  \<^verbatim>\<open>PathAllocCombine\<close>, for a non-null \<^verbatim>\<open>out\<close> and allocations that succeed; a NULL
  operand is \<open>None\<close>. The heap block for the combined path is taken as filled with NUL:
  nothing behind the string's terminator is read.
\<close>

definition fully_qualified :: "wstr \<Rightarrow> bool" where
  "fully_qualified p2 =
     ((isalphaW (at p2 0) \<and> at p2 1 = COLON) \<or> (at p2 0 = BSL \<and> at p2 1 = BSL))"

definition PathAllocCombine :: "wstr option \<Rightarrow> wstr option \<Rightarrow> dword \<Rightarrow> hresult + wstr" where
  "PathAllocCombine path1 path2 flags =
     (case (path1, path2) of
        (None, None) \<Rightarrow> Inl E_INVALIDARG
      | (Some a, None) \<Rightarrow> PathAllocCanonicalize a flags
      | (None, Some b) \<Rightarrow> PathAllocCanonicalize b flags
      | (Some a, Some b) \<Rightarrow>
          (let a = c_str a; b = c_str b;
               from_path2 = fully_qualified b;
               p1 = (if from_path2 then b else a);
               p2 = (if from_path2 then None else Some b);
               length2 = (case p2 of None \<Rightarrow> 0 | Some x \<Rightarrow> length x);
               combined_length = length p1 + length2 + 2;
               c0 = store (replicate combined_length 0) 0 (p1 @ [0]);
               c1 = snd (PathCchStripPrefix c0 combined_length);
               c2 = (if from_path2 then snd (PathCchAddBackslashEx c1 combined_length) else c1);
               c3 = (case p2 of
                       None \<Rightarrow> c2
                     | Some x \<Rightarrow>
                         if at x 0 = 0 then c2
                         else
                           (let rooted = (at x 0 = BSL \<and> at x 1 \<noteq> BSL);
                                c' = (if rooted then snd (PathCchStripToRoot c2 combined_length) else c2);
                                x' = (if rooted then drop 1 x else x)
                            in lstrcatW (snd (PathCchAddBackslashEx c' combined_length)) x'))
           in PathAllocCanonicalize (c_str c3) flags))"

section \<open>URL schemes\<close>

datatype url_scheme = URL_SCHEME_INVALID | URL_SCHEME_UNKNOWN | URL_SCHEME_FTP
  | URL_SCHEME_HTTP | URL_SCHEME_GOPHER | URL_SCHEME_MAILTO | URL_SCHEME_NEWS
  | URL_SCHEME_NNTP | URL_SCHEME_TELNET | URL_SCHEME_WAIS | URL_SCHEME_FILE
  | URL_SCHEME_MK | URL_SCHEME_HTTPS | URL_SCHEME_SHELL | URL_SCHEME_SNEWS
  | URL_SCHEME_LOCAL | URL_SCHEME_JAVASCRIPT | URL_SCHEME_VBSCRIPT | URL_SCHEME_ABOUT
  | URL_SCHEME_RES

definition url_schemes :: "(url_scheme \<times> wstr) list" where
  "url_schemes =
     [(URL_SCHEME_FTP, W ''ftp''), (URL_SCHEME_HTTP, W ''http''),
      (URL_SCHEME_GOPHER, W ''gopher''), (URL_SCHEME_MAILTO, W ''mailto''),
      (URL_SCHEME_NEWS, W ''news''), (URL_SCHEME_NNTP, W ''nntp''),
      (URL_SCHEME_TELNET, W ''telnet''), (URL_SCHEME_WAIS, W ''wais''),
      (URL_SCHEME_FILE, W ''file''), (URL_SCHEME_MK, W ''mk''),
      (URL_SCHEME_HTTPS, W ''https''), (URL_SCHEME_SHELL, W ''shell''),
      (URL_SCHEME_SNEWS, W ''snews''), (URL_SCHEME_LOCAL, W ''local''),
      (URL_SCHEME_JAVASCRIPT, W ''javascript''), (URL_SCHEME_VBSCRIPT, W ''vbscript''),
      (URL_SCHEME_ABOUT, W ''about''), (URL_SCHEME_RES, W ''res'')]"

text \<open>
  \<^verbatim>\<open>get_scheme_code(scheme, scheme_len)\<close>; the caller passes a span of \<open>scheme_len\<close>
  units, none of them NUL.
\<close>

definition get_scheme_code :: "wstr \<Rightarrow> nat \<Rightarrow> url_scheme" where
  "get_scheme_code scheme scheme_len =
     (case find (\<lambda>(code, name). scheme_len = length name \<and>
                   map tolowerW (take scheme_len scheme) = map tolowerW name) url_schemes of
        Some (code, name) \<Rightarrow> code
      | None \<Rightarrow> URL_SCHEME_UNKNOWN)"

record parsedurl =
  cchProtocol :: nat
  pszSuffix :: nat
  nScheme :: url_scheme

text \<open>
  \<^verbatim>\<open>ParseURLW\<close> for a result structure of the right size: \<open>None\<close> is
  \<^verbatim>\<open>URL_E_INVALID_SYNTAX\<close>; the protocol starts at offset 0 and \<open>pszSuffix\<close> is the
  offset of the suffix.
\<close>

definition ParseURLW :: "wstr \<Rightarrow> parsedurl option" where
  "ParseURLW url =
     (let n = length (takeWhile (\<lambda>c. c \<noteq> 0 \<and> (isalnumW c \<or> c = 45 \<or> c = 43 \<or> c = DOT)) url)
      in if at url n \<noteq> COLON \<or> n \<le> 1 then None
         else Some \<lparr>cchProtocol = n, pszSuffix = n + 1, nScheme = get_scheme_code url n\<rparr>)"

section \<open>Percent-encoding\<close>

text \<open>
  Modelled from the spec: the URL option bits are declared in shlwapi.h, which is not part
  of the source file; each is one bit of the flags word, with the value of the public
  header. The \<^verbatim>\<open>WINE_URL_*\<close> bits are those of the source file.
\<close>

definition URL_ESCAPE_PERCENT :: dword where "URL_ESCAPE_PERCENT = 0x00001000"
definition URL_ESCAPE_SEGMENT_ONLY :: dword where "URL_ESCAPE_SEGMENT_ONLY = 0x00002000"
definition URL_FILE_USE_PATHURL :: dword where "URL_FILE_USE_PATHURL = 0x00010000"
definition URL_ESCAPE_AS_UTF8 :: dword where "URL_ESCAPE_AS_UTF8 = 0x00040000"
definition URL_UNESCAPE_INPLACE :: dword where "URL_UNESCAPE_INPLACE = 0x00100000"
definition URL_DONT_ESCAPE_EXTRA_INFO :: dword where "URL_DONT_ESCAPE_EXTRA_INFO = 0x02000000"
definition URL_DONT_UNESCAPE_EXTRA_INFO :: dword where
  "URL_DONT_UNESCAPE_EXTRA_INFO = URL_DONT_ESCAPE_EXTRA_INFO"
definition URL_ESCAPE_SPACES_ONLY :: dword where "URL_ESCAPE_SPACES_ONLY = 0x04000000"
definition URL_DONT_SIMPLIFY :: dword where "URL_DONT_SIMPLIFY = 0x08000000"
definition URL_UNESCAPE :: dword where "URL_UNESCAPE = 0x10000000"
definition URL_ESCAPE_UNSAFE :: dword where "URL_ESCAPE_UNSAFE = 0x20000000"
definition URL_WININET_COMPATIBILITY :: dword where "URL_WININET_COMPATIBILITY = 0x80000000"

definition WINE_URL_BASH_AS_SLASH :: dword where "WINE_URL_BASH_AS_SLASH = 0x01"
definition WINE_URL_COLLAPSE_SLASHES :: dword where "WINE_URL_COLLAPSE_SLASHES = 0x02"
definition WINE_URL_ESCAPE_SLASH :: dword where "WINE_URL_ESCAPE_SLASH = 0x04"
definition WINE_URL_ESCAPE_HASH :: dword where "WINE_URL_ESCAPE_HASH = 0x08"
definition WINE_URL_ESCAPE_QUESTION :: dword where "WINE_URL_ESCAPE_QUESTION = 0x10"
definition WINE_URL_STOP_ON_HASH :: dword where "WINE_URL_STOP_ON_HASH = 0x20"
definition WINE_URL_STOP_ON_QUESTION :: dword where "WINE_URL_STOP_ON_QUESTION = 0x40"

text \<open>
  Modelled from the spec: \<^verbatim>\<open>StrToIntExW\<close> is not part of the source file. On the
  string \<^verbatim>\<open>0xXY\<close> built from two hexadecimal digits it yields the number they
  denote (``decodes \<^verbatim>\<open>%XX\<close>'').
\<close>

definition hex_digit_value :: "wchar \<Rightarrow> wchar" where
  "hex_digit_value c =
     (if isdigitW c then c - 48 else if 97 \<le> c \<and> c \<le> 102 then c - 87 else c - 55)"

definition hex_pair_value :: "wchar \<Rightarrow> wchar \<Rightarrow> wchar" where
  "hex_pair_value h l = 16 * hex_digit_value h + hex_digit_value l"

text \<open>
  The loop of \<^verbatim>\<open>UrlUnescapeW\<close> over the remaining input: the units it hands to
  \<^verbatim>\<open>*dst++\<close>, one per iteration.
\<close>

function unescape_loop :: "dword \<Rightarrow> bool \<Rightarrow> wstr \<Rightarrow> wstr" where
  "unescape_loop flags stop_unescaping [] = []"
| "unescape_loop flags stop_unescaping (c # cs) =
     (if has flags URL_DONT_UNESCAPE_EXTRA_INFO \<and> (c = HASH \<or> c = QMARK)
      then c # unescape_loop flags True cs
      else if c = PERCENT \<and> isxdigitW (at cs 0) \<and> isxdigitW (at cs 1) \<and> \<not> stop_unescaping
      then hex_pair_value (at cs 0) (at cs 1) # unescape_loop flags stop_unescaping (drop 2 cs)
      else c # unescape_loop flags stop_unescaping cs)"
  by pat_completeness auto
termination
  by (relation "measure (\<lambda>(flags, stop_unescaping, cs). length cs)") auto

text \<open>
  \<^verbatim>\<open>UrlUnescapeW\<close> for a non-null \<^verbatim>\<open>url\<close> and, without
  \<^verbatim>\<open>URL_UNESCAPE_INPLACE\<close>, a non-null buffer of \<open>unescaped_len\<close> units. The result is
  the status, the string the destination holds on success (it ends at the first NUL
  written), and the value left in \<^verbatim>\<open>*unescaped_len\<close>. In place, \<^verbatim>\<open>dst\<close> never
  overtakes \<^verbatim>\<open>src\<close>, so the units read are those of the input.
\<close>

definition UrlUnescapeW :: "wstr \<Rightarrow> nat \<Rightarrow> dword \<Rightarrow> hresult \<times> wstr option \<times> nat" where
  "UrlUnescapeW url unescaped_len flags =
     (let out = unescape_loop flags False (c_str url); needed = length out in
      if has flags URL_UNESCAPE_INPLACE then (S_OK, Some (c_str out), unescaped_len)
      else if needed < unescaped_len then (S_OK, Some (c_str out), needed)
      else (E_POINTER, None, needed + 1))"

definition url_needs_escape :: "wchar \<Rightarrow> dword \<Rightarrow> dword \<Rightarrow> bool" where
  "url_needs_escape ch flags int_flags =
     (if has flags URL_ESCAPE_SPACES_ONLY then ch = SPACE
      else if has flags URL_ESCAPE_PERCENT \<and> ch = PERCENT then True
      else if has flags URL_ESCAPE_AS_UTF8 \<and> ch \<ge> 0x80 then True
      else if ch \<le> 31 \<or> (ch \<ge> 127 \<and> ch \<le> 255) then True
      else if isalnumW ch then False
      else if ch \<in> set [SPACE, 60, 62, 34, 123, 125, 124, BSL, 94, 93, 91, 96, 38] then True
      else if ch = FSL then has int_flags WINE_URL_ESCAPE_SLASH
      else if ch = QMARK then has int_flags WINE_URL_ESCAPE_QUESTION
      else if ch = HASH then has int_flags WINE_URL_ESCAPE_HASH
      else False)"

definition hexDigits :: "wchar \<Rightarrow> wchar" where
  "hexDigits n = (if n < 10 then 48 + n else 55 + n)"

definition percent_byte :: "wchar \<Rightarrow> wstr" where
  "percent_byte b = [PERCENT, hexDigits (drop_bit 4 b AND 0xf), hexDigits (b AND 0xf)]"

text \<open>
  Modelled from the spec: \<^verbatim>\<open>WideCharToMultiByte\<close> is not part of the source file. With
  \<^verbatim>\<open>CP_UTF8\<close> and \<^verbatim>\<open>WC_ERR_INVALID_CHARS\<close> it yields the UTF-8 bytes of one code
  point, a valid surrogate pair being one code point of four bytes, and no bytes for an
  invalid sequence.
\<close>

definition utf8_bytes :: "nat \<Rightarrow> wstr" where
  "utf8_bytes cp =
     (if cp < 0x80 then [of_nat cp]
      else if cp < 0x800 then [of_nat (0xC0 + cp div 64), of_nat (0x80 + cp mod 64)]
      else if cp < 0x10000 then
        [of_nat (0xE0 + cp div 4096), of_nat (0x80 + (cp div 64) mod 64), of_nat (0x80 + cp mod 64)]
      else
        [of_nat (0xF0 + cp div 262144), of_nat (0x80 + (cp div 4096) mod 64),
         of_nat (0x80 + (cp div 64) mod 64), of_nat (0x80 + cp mod 64)])"

definition is_surrogate :: "wchar \<Rightarrow> bool" where
  "is_surrogate c = (0xd800 \<le> c \<and> c \<le> 0xdfff)"

definition is_low_surrogate :: "wchar \<Rightarrow> bool" where
  "is_low_surrogate c = (0xdc00 \<le> c \<and> c \<le> 0xdfff)"

definition utf8_of_unit :: "wchar \<Rightarrow> wstr" where
  "utf8_of_unit c = (if is_surrogate c then [] else utf8_bytes (unat c))"

definition utf8_of_pair :: "wchar \<Rightarrow> wchar \<Rightarrow> wstr" where
  "utf8_of_pair hi lo =
     (if is_surrogate hi \<and> \<not> is_low_surrogate hi \<and> is_low_surrogate lo
      then utf8_bytes (0x10000 + (unat hi - 0xd800) * 1024 + (unat lo - 0xdc00))
      else [])"

text \<open>
  One pass through the \<^verbatim>\<open>if (len == 0)\<close> block of \<^verbatim>\<open>UrlEscapeW\<close> at offset \<open>i\<close>:
  the units put into \<^verbatim>\<open>next\<close>, the new offset and the new \<^verbatim>\<open>stop_escaping\<close>.
\<close>

definition escape_unit :: "wstr \<Rightarrow> dword \<Rightarrow> dword \<Rightarrow> nat \<Rightarrow> bool \<Rightarrow> wstr \<times> nat \<times> bool" where
  "escape_unit url flags int_flags i stop_escaping =
     (let cur0 = at url i;
          stop = (stop_escaping \<or> (cur0 = HASH \<and> has int_flags WINE_URL_STOP_ON_HASH)
                    \<or> (cur0 = QMARK \<and> has int_flags WINE_URL_STOP_ON_QUESTION));
          cur = (if cur0 = BSL \<and> has int_flags WINE_URL_BASH_AS_SLASH \<and> \<not> stop then FSL else cur0)
      in if url_needs_escape cur flags int_flags \<and> \<not> stop then
           (if has flags URL_ESCAPE_AS_UTF8 then
              (let pair = (is_surrogate cur \<and> is_low_surrogate (at url (i + 1)));
                   utf0 = (if pair then utf8_of_pair (at url i) (at url (i + 1)) else utf8_of_unit cur);
                   utf = (if utf0 = [] then [0xef, 0xbf, 0xbd] else utf0)
               in (concat (map percent_byte utf), (if pair then i + 2 else i + 1), stop))
            else (percent_byte cur, i + 1, stop))
         else ([cur], i + 1, stop))"

text \<open>
  The \<^verbatim>\<open>WINE_URL_COLLAPSE_SLASHES\<close> block at the offset behind the scheme's colon: the
  slashes put into \<^verbatim>\<open>next\<close> (none when there is no slash) and the new offset.
\<close>

definition is_slash :: "wchar \<Rightarrow> bool" where
  "is_slash c = (c = FSL \<or> c = BSL)"

definition collapse_slashes :: "wstr \<Rightarrow> nat \<Rightarrow> wstr \<times> nat" where
  "collapse_slashes url i =
     (let k = length (takeWhile is_slash (drop i url));
          j = i + k;
          localhost = (k = 2 \<and> map tolowerW (take 9 (drop j url)) = W ''localhost'');
          j' = (if localhost \<and> is_slash (at url (j + 9)) then j + 10 else j);
          slashes = (if localhost then 3 else k)
      in ((if slashes = 1 \<or> slashes = 3 then [FSL, FSL, FSL]
           else if slashes = 0 then [] else [FSL, FSL]), j'))"

lemma collapse_slashes_advances:
  assumes "collapse_slashes url i = (chunk, j)" and "chunk \<noteq> []"
  shows "i < j"
proof -
  have "0 < length (takeWhile is_slash (drop i url))"
    using assms by (auto simp: collapse_slashes_def Let_def split: if_splits)
  then show ?thesis
    using assms by (auto simp: collapse_slashes_def Let_def split: if_splits)
qed

lemma escape_unit_advances:
  "escape_unit url flags int_flags i st = (chunk, j, st') \<Longrightarrow> i < j"
  by (auto simp: escape_unit_def Let_def split: if_splits)

lemma escape_unit_measure:
  assumes "(chunk, j, st') = escape_unit url flags int_flags i st" and "at url i \<noteq> 0"
  shows "length url - j < length url - i"
  using escape_unit_advances [OF assms(1) [symmetric]] at_nonzero_less [OF assms(2)] by simp

lemma collapse_slashes_measure:
  assumes "(chunk, j) = collapse_slashes url i" and "chunk \<noteq> []" and "at url i \<noteq> 0"
  shows "length url - j < length url - i"
  using collapse_slashes_advances [OF assms(1) [symmetric] assms(2)] at_nonzero_less [OF assms(3)]
  by simp

text \<open>
  The loop \<^verbatim>\<open>for (src = url; *src; )\<close> from offset \<open>i\<close>: the successive contents of
  \<^verbatim>\<open>next\<close>. \<open>cch\<close> is \<^verbatim>\<open>parsed_url.cchProtocol\<close>.
\<close>

function escape_loop :: "wstr \<Rightarrow> dword \<Rightarrow> dword \<Rightarrow> nat \<Rightarrow> nat \<Rightarrow> bool \<Rightarrow> wstr list" where
  "escape_loop url flags int_flags cch i stop_escaping =
     (if at url i = 0 then []
      else
        (case (if has int_flags WINE_URL_COLLAPSE_SLASHES \<and> i = cch + 1
               then collapse_slashes url i else ([], i)) of
           (chunk0, i0) \<Rightarrow>
             if chunk0 = [] then
               (case escape_unit url flags int_flags i stop_escaping of
                  (chunk, i', stop') \<Rightarrow> chunk # escape_loop url flags int_flags cch i' stop')
             else chunk0 # escape_loop url flags int_flags cch i0 stop_escaping))"
  by pat_completeness auto
termination
  apply (relation "measure (\<lambda>(url, flags, int_flags, cch, i, stop_escaping). length url - i)")
    apply simp
   apply (auto intro: escape_unit_measure collapse_slashes_measure split: if_splits)
  done

declare escape_loop.simps [simp del]

text \<open>The ``fix up flags'' step and the choice of the internal flags.\<close>

definition escape_fixup_flags :: "dword \<Rightarrow> dword" where
  "escape_fixup_flags flags =
     (if has flags URL_ESCAPE_SPACES_ONLY
      then flags AND NOT (URL_DONT_ESCAPE_EXTRA_INFO OR URL_ESCAPE_PERCENT OR URL_ESCAPE_SEGMENT_ONLY)
      else flags OR URL_DONT_ESCAPE_EXTRA_INFO)"

definition escape_int_flags :: "wstr \<Rightarrow> dword \<Rightarrow> dword" where
  "escape_int_flags url flags =
     (if has flags URL_ESCAPE_SEGMENT_ONLY
      then WINE_URL_ESCAPE_QUESTION OR WINE_URL_ESCAPE_HASH OR WINE_URL_ESCAPE_SLASH
      else
        (let parsed = ParseURLW url;
             scheme = (case parsed of None \<Rightarrow> URL_SCHEME_INVALID | Some pu \<Rightarrow> nScheme pu);
             suffix0 = (case parsed of None \<Rightarrow> 0 | Some pu \<Rightarrow> at url (pszSuffix pu));
             base = (if has flags URL_DONT_ESCAPE_EXTRA_INFO
                     then WINE_URL_STOP_ON_HASH OR WINE_URL_STOP_ON_QUESTION else 0)
         in if scheme = URL_SCHEME_FILE then
              (base OR WINE_URL_BASH_AS_SLASH OR WINE_URL_COLLAPSE_SLASHES OR WINE_URL_ESCAPE_HASH)
                AND NOT WINE_URL_STOP_ON_HASH
            else if scheme = URL_SCHEME_HTTP \<or> scheme = URL_SCHEME_HTTPS then
              (if suffix0 \<noteq> FSL \<and> suffix0 \<noteq> BSL
               then base OR WINE_URL_BASH_AS_SLASH OR WINE_URL_ESCAPE_SLASH
               else base OR WINE_URL_BASH_AS_SLASH)
            else if scheme = URL_SCHEME_MAILTO then
              (base OR WINE_URL_ESCAPE_SLASH OR WINE_URL_ESCAPE_QUESTION OR WINE_URL_ESCAPE_HASH)
                AND NOT (WINE_URL_STOP_ON_QUESTION OR WINE_URL_STOP_ON_HASH)
            else if scheme = URL_SCHEME_INVALID then base
            else (if suffix0 \<noteq> FSL then base OR WINE_URL_ESCAPE_SLASH else base)))"

text \<open>
  \<^verbatim>\<open>UrlEscapeW\<close> for non-null pointers and an allocation that succeeds, with
  \<open>escaped_len\<close> the size of the caller's buffer. A chunk is stored only while it fits;
  when the total stays below \<open>escaped_len\<close> every chunk was stored and the caller
  receives their concatenation, otherwise the caller's buffer is not written. The third
  component is the value left in \<^verbatim>\<open>*escaped_len\<close>.
\<close>

definition UrlEscapeW :: "wstr \<Rightarrow> nat \<Rightarrow> dword \<Rightarrow> hresult \<times> wstr option \<times> nat" where
  "UrlEscapeW url escaped_len flags =
     (if escaped_len = 0 then (E_INVALIDARG, None, escaped_len)
      else
        (let u = c_str url;
             flags1 = escape_fixup_flags flags;
             int_flags = escape_int_flags u flags1;
             cch = (case ParseURLW u of None \<Rightarrow> 0 | Some pu \<Rightarrow> cchProtocol pu);
             out = concat (escape_loop u flags1 int_flags cch 0 False);
             needed = length out
         in if needed < escaped_len then (S_OK, Some out, needed)
            else (E_POINTER, None, needed + 1)))"

section \<open>URL canonicalization\<close>

text \<open>
  The states 0 to 6 of the scan of \<^verbatim>\<open>UrlCanonicalizeW\<close>. The variable never holds
  another value, so the \<^verbatim>\<open>default\<close> branch of the switch has no counterpart.
\<close>

datatype ustate = St0 | St1 | St2 | St3 | St4 | St5 | St6

text \<open>
  \<open>wk1\<close> is the offset into the tab-free copy of the URL; \<open>out\<close> holds the units of
  \<^verbatim>\<open>url_copy\<close> before \<^verbatim>\<open>wk2\<close>. Nothing behind \<^verbatim>\<open>wk2\<close> is read before it is
  written again. A NUL stored in front of \<^verbatim>\<open>wk2\<close> stays in \<open>out\<close>.
\<close>

record ucstate =
  wk1 :: nat
  out :: wstr
  state :: ustate

definition put_slash :: "wchar \<Rightarrow> wchar \<Rightarrow> wchar" where
  "put_slash slash c = (if slash \<noteq> 0 then slash else c)"

text \<open>\<^verbatim>\<open>strrchrW\<close> on a NUL-free string: the offset of the last occurrence.\<close>

definition last_index :: "wchar \<Rightarrow> wstr \<Rightarrow> nat option" where
  "last_index c s =
     (if c \<in> set s then Some (length s - 1 - length (takeWhile (\<lambda>x. x \<noteq> c) (rev s)))
      else None)"

text \<open>
  The backup point of the ``\<^verbatim>\<open>/../\<close>'' case, in the string that starts at \<open>root\<close> and
  ends at the NUL just stored: of the last \<^verbatim>\<open>/\<close> and the last \<^verbatim>\<open>\\\<close> the code takes
  the backslash when it lies in front of the slash or there is no slash.
\<close>

definition backup_point :: "wstr \<Rightarrow> nat \<Rightarrow> nat option" where
  "backup_point b root =
     (let s = c_str (drop root b);
          mp = last_index FSL s; mp2 = last_index BSL s;
          m = (case mp2 of
                 None \<Rightarrow> mp
               | Some j \<Rightarrow> (case mp of None \<Rightarrow> mp2 | Some i \<Rightarrow> if j < i then mp2 else mp))
      in map_option (\<lambda>i. root + i) m)"

lemma at_dot_less: "at url w = DOT \<Longrightarrow> w < length url"
  by (rule at_nonzero_less) simp

text \<open>The loop \<^verbatim>\<open>while (*wk1 == '.')\<close> of state 6.\<close>

function dot_loop :: "wstr \<Rightarrow> wchar \<Rightarrow> nat \<Rightarrow> nat \<times> wstr \<Rightarrow> nat \<times> wstr" where
  "dot_loop url slash root (w, b) =
     (if at url w \<noteq> DOT then (w, b)
      else if is_slash (at url (w + 1)) then dot_loop url slash root (w + 2, b)
      else if at url (w + 1) = DOT \<and>
              (is_slash (at url (w + 2)) \<or> at url (w + 2) = QMARK \<or> at url (w + 2) = HASH
               \<or> at url (w + 2) = 0)
      then
        (let b0 = b[length b - 1 := 0] in
         case backup_point b0 root of
           Some mp \<Rightarrow>
             dot_loop url slash root ((if is_slash (at url (w + 2)) then w + 3 else w + 2), take (mp + 1) b0)
         | None \<Rightarrow> (w, b[length b - 1 := slash]))
      else (w, b))"
  by pat_completeness auto
termination
  by (relation "measure (\<lambda>(url, slash, root, w, b). length url + 3 - w)")
     (auto simp: is_slash_def dest!: at_dot_less)

declare dot_loop.simps [simp del]

lemma dot_loop_fst: "w \<le> fst (dot_loop url slash root (w, b))"
proof (induction url slash root "(w, b)" arbitrary: w b rule: dot_loop.induct)
  case (1 url slash root w b)
  note ih = "1.hyps"
  show ?case
  proof (cases "at url w = DOT")
    case False
    then show ?thesis by (subst dot_loop.simps) simp
  next
    case d: True
    show ?thesis
    proof (cases "is_slash (at url (w + 1))")
      case True
      have "w + 2 \<le> fst (dot_loop url slash root (w + 2, b))"
        using ih(1) d True by simp
      moreover have "dot_loop url slash root (w, b) = dot_loop url slash root (w + 2, b)"
        using d True by (subst dot_loop.simps) simp
      ultimately show ?thesis by simp
    next
      case ns: False
      show ?thesis
      proof (cases "at url (w + 1) = DOT \<and>
              (is_slash (at url (w + 2)) \<or> at url (w + 2) = QMARK \<or> at url (w + 2) = HASH
               \<or> at url (w + 2) = 0)")
        case False
        then show ?thesis using d ns by (subst dot_loop.simps) auto
      next
        case c: True
        show ?thesis
        proof (cases "backup_point (b[length b - 1 := 0]) root")
          case None
          then show ?thesis using d ns c by (subst dot_loop.simps) (simp add: Let_def)
        next
          case (Some mp)
          let ?w = "if is_slash (at url (w + 2)) then w + 3 else w + 2"
          let ?b = "take (mp + 1) (b[length b - 1 := 0])"
          have "?w \<le> fst (dot_loop url slash root (?w, ?b))"
            using ih(2) [OF _ ns c refl Some] d by simp
          moreover have "dot_loop url slash root (w, b) = dot_loop url slash root (?w, ?b)"
            using d ns c Some by (subst dot_loop.simps) (simp add: Let_def)
          moreover have "w \<le> ?w" by simp
          ultimately show ?thesis by (metis order_trans)
        qed
      qed
    qed
  qed
qed

lemma dot_loop_mono: "dot_loop url slash root (w, b) = (w', b') \<Longrightarrow> w \<le> w'"
  using dot_loop_fst [of w url slash root b] by simp

lemma simplify_measure_end:
  assumes "at url w \<noteq> 0" and "at url (w + n) = 0"
  shows "length url - (w + n) < length url - w"
proof -
  have "w < length url" using assms(1) by (rule at_nonzero_less)
  moreover have "0 < n" using assms by (cases n) auto
  ultimately show ?thesis by simp
qed

lemma simplify_measure_dots:
  assumes "at url w \<noteq> 0"
  shows "(case dot_loop url slash root (Suc (w + n), b) of (w', b') \<Rightarrow> length url - w')
         < length url - w"
proof -
  obtain w' b' where d: "dot_loop url slash root (Suc (w + n), b) = (w', b')"
    by (cases "dot_loop url slash root (Suc (w + n), b)")
  have "w < length url" using assms by (rule at_nonzero_less)
  moreover have "Suc (w + n) \<le> w'" using dot_loop_mono [OF d] .
  ultimately show ?thesis using d by simp
qed

text \<open>
  The inner loop \<^verbatim>\<open>while (*wk1)\<close> of state 6. The first of the next \<^verbatim>\<open>/\<close> and the
  next \<^verbatim>\<open>\\\<close> ends the segment.
\<close>

function simplify_loop :: "wstr \<Rightarrow> wchar \<Rightarrow> nat \<Rightarrow> nat \<times> wstr \<Rightarrow> nat \<times> wstr" where
  "simplify_loop url slash root (w, b) =
     (if at url w = 0 then (w, b)
      else
        (let seg = takeWhile (\<lambda>c. \<not> is_slash c) (drop w url); mp = w + length seg in
         if at url mp = 0 then simplify_loop url slash root (mp, b @ seg)
         else
           (case dot_loop url slash root (mp + 1, b @ seg @ [put_slash slash (at url mp)]) of
              (w', b') \<Rightarrow> simplify_loop url slash root (w', b'))))"
  by pat_completeness auto
termination
  apply (relation "measure (\<lambda>(url, slash, root, w, b). length url - w)")
    apply simp
   apply (simp add: simplify_measure_end)
  apply (simp add: simplify_measure_dots)
  done

declare simplify_loop.simps [simp del]

text \<open>
  State 2, behind the scheme's colon. \<open>long9\<close> is the test
  \<^verbatim>\<open>nByteLen >= sizeof(wszLocalhost)\<close>.
\<close>

definition state2 :: "wstr \<Rightarrow> dword \<Rightarrow> wchar \<Rightarrow> bool \<Rightarrow> bool \<Rightarrow> ucstate \<Rightarrow> ucstate" where
  "state2 url flags slash is_file_url long9 st =
     (let w = wk1 st; o1 = out st @ [at url w]; w1 = w + 1 in
      if at url w1 \<noteq> FSL then st\<lparr>wk1 := w1, out := o1, state := St6\<rparr>
      else
        (let o2 = o1 @ [at url w1]; w2 = w1 + 1;
             pathurl = has flags URL_FILE_USE_PATHURL;
             w3 = (if pathurl \<and> long9 \<and> is_file_url \<and> take 9 (drop w2 url) = W ''localhost''
                   then (if pathurl
                         then w2 + 9 + length (takeWhile (\<lambda>c. c = BSL) (drop (w2 + 9) url))
                         else w2 + 9)
                   else w2)
         in if at url w3 = FSL \<and> pathurl then st\<lparr>wk1 := w3 + 1, out := o2, state := St4\<rparr>
            else if is_file_url then
              (let body = w3 + length (takeWhile (\<lambda>c. c = FSL) (drop w3 url));
                   single = (at url w3 = FSL \<and> at url (w3 + 1) \<noteq> FSL);
                   extra =
                     (if isalnumW (at url body) \<and> at url (body + 1) = COLON then
                        (if \<not> has flags (URL_WININET_COMPATIBILITY OR URL_FILE_USE_PATHURL)
                         then [put_slash slash FSL] else [])
                      else if has flags URL_WININET_COMPATIBILITY then
                        (if single then [BSL] else [BSL, BSL])
                      else (if single then [put_slash slash FSL] else []))
               in st\<lparr>wk1 := body, out := o2 @ extra, state := St4\<rparr>)
            else st\<lparr>wk1 := w3, out := o2, state := St4\<rparr>))"

definition host_char :: "wchar \<Rightarrow> bool" where
  "host_char c = (isalnumW c \<or> c = 45 \<or> c = DOT \<or> c = COLON)"

text \<open>One pass through the \<^verbatim>\<open>switch (state)\<close>.\<close>

definition url_step :: "wstr \<Rightarrow> dword \<Rightarrow> wchar \<Rightarrow> bool \<Rightarrow> bool \<Rightarrow> ucstate \<Rightarrow> ucstate" where
  "url_step url flags slash is_file_url long9 st =
     (let w = wk1 st; ob = out st in
      case state st of
        St0 \<Rightarrow>
          if \<not> isalnumW (at url w) then st\<lparr>state := St3\<rparr>
          else if \<not> isalnumW (at url (w + 1)) then st\<lparr>wk1 := w + 1, out := ob @ [at url w], state := St3\<rparr>
          else st\<lparr>wk1 := w + 2, out := ob @ [at url w, at url (w + 1)], state := St1\<rparr>
      | St1 \<Rightarrow>
          st\<lparr>wk1 := w + 1, out := ob @ [at url w], state := (if at url w = COLON then St2 else St1)\<rparr>
      | St2 \<Rightarrow> state2 url flags slash is_file_url long9 st
      | St3 \<Rightarrow>
          (let rest = drop w url in
           st\<lparr>wk1 := w + length rest,
              out := ob @ (if slash \<noteq> 0 then map (\<lambda>c. if is_slash c then slash else c) rest else rest)\<rparr>)
      | St4 \<Rightarrow>
          if \<not> host_char (at url w) then st\<lparr>state := St3\<rparr>
          else
            (let host = takeWhile host_char (drop w url); w' = w + length host in
             st\<lparr>wk1 := w', state := St5,
                out := ob @ host @ (if at url w' = 0 then [put_slash slash FSL] else [])\<rparr>)
      | St5 \<Rightarrow>
          if \<not> is_slash (at url w) then st\<lparr>state := St3\<rparr>
          else
            (let sl = takeWhile is_slash (drop w url) in
             st\<lparr>wk1 := w + length sl, state := St6,
                out := ob @ map (put_slash slash) sl\<rparr>)
      | St6 \<Rightarrow>
          if has flags URL_DONT_SIMPLIFY then st\<lparr>state := St3\<rparr>
          else
            (case simplify_loop url slash (length ob - 1) (w, ob) of
               (w', o') \<Rightarrow> st\<lparr>wk1 := w', out := o'\<rparr>))"

lemma simplify_loop_end: "at url (fst (simplify_loop url slash root (w, b))) = 0"
proof (induction url slash root "(w, b)" arbitrary: w b rule: simplify_loop.induct)
  case (1 url slash root w b)
  note ih = "1.hyps"
  let ?seg = "takeWhile (\<lambda>c. \<not> is_slash c) (drop w url)"
  let ?mp = "w + length ?seg"
  show ?case
  proof (cases "at url w = 0")
    case True
    then show ?thesis by (subst simplify_loop.simps) simp
  next
    case nz: False
    show ?thesis
    proof (cases "at url ?mp = 0")
      case True
      have "simplify_loop url slash root (w, b) = simplify_loop url slash root (?mp, b @ ?seg)"
        using nz True by (subst simplify_loop.simps) (simp add: Let_def)
      then show ?thesis using ih(1) [OF nz refl refl True] by simp
    next
      case False
      obtain w' b' where d:
        "dot_loop url slash root (?mp + 1, b @ ?seg @ [put_slash slash (at url ?mp)]) = (w', b')"
        by (cases "dot_loop url slash root (?mp + 1, b @ ?seg @ [put_slash slash (at url ?mp)])")
      have "simplify_loop url slash root (w, b) = simplify_loop url slash root (w', b')"
        using nz False d by (subst simplify_loop.simps) (simp add: Let_def)
      then show ?thesis using ih(2) [OF nz refl refl False d [symmetric]] by simp
    qed
  qed
qed

lemma simplify_loop_fst: "w \<le> fst (simplify_loop url slash root (w, b))"
proof (induction url slash root "(w, b)" arbitrary: w b rule: simplify_loop.induct)
  case (1 url slash root w b)
  note ih = "1.hyps"
  let ?seg = "takeWhile (\<lambda>c. \<not> is_slash c) (drop w url)"
  let ?mp = "w + length ?seg"
  show ?case
  proof (cases "at url w = 0")
    case True
    then show ?thesis by (subst simplify_loop.simps) simp
  next
    case nz: False
    show ?thesis
    proof (cases "at url ?mp = 0")
      case True
      have "?mp \<le> fst (simplify_loop url slash root (?mp, b @ ?seg))"
        using ih(1) [OF nz refl refl True] .
      moreover have "simplify_loop url slash root (w, b) = simplify_loop url slash root (?mp, b @ ?seg)"
        using nz True by (subst simplify_loop.simps) (simp add: Let_def)
      ultimately show ?thesis by simp
    next
      case False
      obtain w' b' where d:
        "dot_loop url slash root (?mp + 1, b @ ?seg @ [put_slash slash (at url ?mp)]) = (w', b')"
        by (cases "dot_loop url slash root (?mp + 1, b @ ?seg @ [put_slash slash (at url ?mp)])")
      have "w' \<le> fst (simplify_loop url slash root (w', b'))"
        using ih(2) [OF nz refl refl False d [symmetric]] .
      moreover have "simplify_loop url slash root (w, b) = simplify_loop url slash root (w', b')"
        using nz False d by (subst simplify_loop.simps) (simp add: Let_def)
      moreover have "?mp + 1 \<le> w'" using dot_loop_mono [OF d] .
      ultimately show ?thesis by simp
    qed
  qed
qed

lemma takeWhile_nonempty:
  assumes "at s w \<noteq> 0" and "P (at s w)"
  shows "0 < length (takeWhile P (drop w s))"
proof -
  have lt: "w < length s" using assms(1) by (rule at_nonzero_less)
  then have "drop w s = s ! w # drop (Suc w) s" by (simp add: Cons_nth_drop_Suc)
  moreover have "P (s ! w)" using assms(2) lt by (simp add: at_def)
  ultimately show ?thesis by simp
qed

lemma takeWhile_advance:
  assumes "at s w \<noteq> 0" and "P (at s w)"
  shows "length s - (w + length (takeWhile P (drop w s))) < length s - w"
proof -
  have "0 < length (takeWhile P (drop w s))"
    using takeWhile_nonempty [of s w P] assms by blast
  moreover have "w < length s" using assms(1) by (rule at_nonzero_less)
  ultimately show ?thesis by linarith
qed

text \<open>
  The outer loop \<^verbatim>\<open>while (*wk1)\<close> ends: a pass either consumes input or moves to
  state 3, which consumes what is left.
\<close>

definition url_measure :: "wstr \<Rightarrow> ucstate \<Rightarrow> nat" where
  "url_measure url st = 2 * (length url - wk1 st) + (if state st = St3 then 0 else 1)"

lemma state2_wk1: "wk1 st < wk1 (state2 url flags slash is_file_url long9 st)"
  by (simp add: state2_def Let_def)

lemma url_step_decreases:
  assumes "at url (wk1 st) \<noteq> 0"
  shows "url_measure url (url_step url flags slash is_file_url long9 st) < url_measure url st"
proof -
  have lt: "wk1 st < length url" using assms by (rule at_nonzero_less)
  have consume: "\<And>st'. wk1 st < wk1 st' \<Longrightarrow> url_measure url st' < url_measure url st \<or> state st = St3"
    using lt by (auto simp: url_measure_def)
  show ?thesis
  proof (cases "state st")
    case St0
    then show ?thesis using lt by (auto simp: url_step_def url_measure_def Let_def)
  next
    case St1
    then show ?thesis using lt by (auto simp: url_step_def url_measure_def Let_def)
  next
    case St2
    then show ?thesis using consume [OF state2_wk1] by (auto simp: url_step_def Let_def)
  next
    case St3
    then show ?thesis using lt by (auto simp: url_step_def url_measure_def Let_def)
  next
    case St4
    then show ?thesis
      using takeWhile_advance [of url "wk1 st" host_char] assms
      by (auto simp: url_step_def url_measure_def Let_def)
  next
    case St5
    then show ?thesis
      using takeWhile_advance [of url "wk1 st" is_slash] assms
      by (auto simp: url_step_def url_measure_def Let_def)
  next
    case St6
    show ?thesis
    proof (cases "has flags URL_DONT_SIMPLIFY")
      case True
      with St6 show ?thesis by (simp add: url_step_def url_measure_def Let_def)
    next
      case False
      obtain w' o' where s: "simplify_loop url slash (length (out st) - 1) (wk1 st, out st) = (w', o')"
        by (cases "simplify_loop url slash (length (out st) - 1) (wk1 st, out st)")
      have z: "at url w' = 0" using simplify_loop_end [of url slash "length (out st) - 1" "wk1 st" "out st"] s by simp
      have "wk1 st \<le> w'" using simplify_loop_fst [of "wk1 st" url slash "length (out st) - 1" "out st"] s by simp
      with z assms have "wk1 st < w'" by (cases "wk1 st = w'") auto
      with St6 False s lt show ?thesis by (simp add: url_step_def url_measure_def Let_def)
    qed
  qed
qed

function url_loop :: "wstr \<Rightarrow> dword \<Rightarrow> wchar \<Rightarrow> bool \<Rightarrow> bool \<Rightarrow> ucstate \<Rightarrow> ucstate" where
  "url_loop url flags slash is_file_url long9 st =
     (if at url (wk1 st) = 0 then st
      else url_loop url flags slash is_file_url long9 (url_step url flags slash is_file_url long9 st))"
  by pat_completeness auto
termination
  by (relation "measure (\<lambda>(url, flags, slash, is_file_url, long9, st). url_measure url st)")
     (simp_all add: url_step_decreases)

declare url_loop.simps [simp del]

text \<open>``Remove \<^verbatim>\<open>\\t\<close> characters from URL''.\<close>

definition strip_tabs :: "wstr \<Rightarrow> wstr" where
  "strip_tabs s = filter (\<lambda>c. c \<noteq> TAB) s"

text \<open>The trailing units up to the space are cut off.\<close>

definition trim_trailing :: "wstr \<Rightarrow> wstr" where
  "trim_trailing s = rev (dropWhile (\<lambda>c. c \<le> SPACE) (rev s))"

text \<open>
  The choices made before the scan, from the tab-free URL and the caller's flags: the
  preferred slash, the flags as changed, whether the URL counts as a file URL, and the
  scan's first state.
\<close>

record ucsetup =
  u_slash :: wchar
  u_flags :: dword
  u_is_file :: bool
  u_init :: ucstate

definition url_setup :: "wstr \<Rightarrow> dword \<Rightarrow> ucsetup" where
  "url_setup url flags =
     (let len1 = length url + 1;
          is_file0 = (take 5 url = W ''file:'');
          slash0 = (if (len1 \<ge> 5 \<and> take 5 url = W ''http:'') \<or> is_file0 then FSL else 0);
          slash1 = (if has flags (URL_FILE_USE_PATHURL OR URL_WININET_COMPATIBILITY) \<and> is_file0
                    then BSL else slash0);
          res = (len1 \<ge> 4 \<and> take 4 url = W ''res:'');
          flags1 = (if res then flags AND NOT URL_FILE_USE_PATHURL else flags);
          slash2 = (if res then 0 else slash1)
      in if at url 1 = COLON then
           (if has flags1 (URL_FILE_USE_PATHURL OR URL_WININET_COMPATIBILITY)
            then \<lparr>u_slash = BSL, u_flags = flags1, u_is_file = True,
                  u_init = \<lparr>wk1 = 0, out = W ''file://'', state = St5\<rparr>\<rparr>
            else \<lparr>u_slash = slash2, u_flags = flags1 OR URL_ESCAPE_UNSAFE, u_is_file = True,
                  u_init = \<lparr>wk1 = 0, out = W ''file:///'', state = St5\<rparr>\<rparr>)
         else if at url 0 = FSL then
           \<lparr>u_slash = slash2, u_flags = flags1, u_is_file = True,
            u_init = \<lparr>wk1 = 0, out = [], state = St5\<rparr>\<rparr>
         else
           \<lparr>u_slash = slash2, u_flags = flags1, u_is_file = is_file0,
            u_init = \<lparr>wk1 = 0, out = [], state = St0\<rparr>\<rparr>)"

text \<open>The simplified URL, before unescaping and escaping.\<close>

definition url_simplified :: "wstr \<Rightarrow> dword \<Rightarrow> wstr" where
  "url_simplified url flags =
     (let su = url_setup url flags;
          st = url_loop url (u_flags su) (u_slash su) (u_is_file su) (length url + 1 \<ge> 9) (u_init su)
      in trim_trailing (c_str (out st)))"

text \<open>
  \<^verbatim>\<open>UrlCanonicalizeW\<close> for non-null pointers and allocations that succeed, with
  \<open>canonicalized_len\<close> the size of the caller's buffer: the status, the string stored in
  the caller's buffer if one is stored, and the value left in \<^verbatim>\<open>*canonicalized_len\<close>.
\<close>

definition UrlCanonicalizeW :: "wstr \<Rightarrow> nat \<Rightarrow> dword \<Rightarrow> hresult \<times> wstr option \<times> nat" where
  "UrlCanonicalizeW src_url canonicalized_len flags =
     (if canonicalized_len = 0 then (E_INVALIDARG, None, canonicalized_len)
      else if c_str src_url = [] then (S_OK, Some [], canonicalized_len)
      else
        (let url = strip_tabs (c_str src_url);
             flags' = u_flags (url_setup url flags);
             simple = url_simplified url flags;
             url_copy =
               (if has flags' URL_UNESCAPE \<or>
                   (has flags' URL_FILE_USE_PATHURL \<and> length url + 1 \<ge> 5 \<and> take 5 url = W ''file:'')
                then (case UrlUnescapeW simple (length simple) URL_UNESCAPE_INPLACE of
                        (hr, Some s, n) \<Rightarrow> s | (hr, None, n) \<Rightarrow> simple)
                else simple);
             escape_flags = flags' AND (URL_ESCAPE_UNSAFE OR URL_ESCAPE_SPACES_ONLY OR URL_ESCAPE_PERCENT
                                        OR URL_DONT_ESCAPE_EXTRA_INFO OR URL_ESCAPE_SEGMENT_ONLY)
         in if escape_flags \<noteq> 0
            then UrlEscapeW url_copy canonicalized_len (escape_flags AND NOT URL_ESCAPE_UNSAFE)
            else if length url_copy < canonicalized_len then (S_OK, Some url_copy, length url_copy)
            else (E_POINTER, None, length url_copy + 1)))"

section \<open>URL parsing\<close>

datatype url_scan_type = SCHEME | HOST | PORT | USERPASS

definition scheme_char :: "wchar \<Rightarrow> bool" where
  "scheme_char c = ((islowerW c \<and> isalphaW c) \<or> isdigitW c \<or> c = 43 \<or> c = 45 \<or> c = DOT)"

definition userpass_char :: "wchar \<Rightarrow> bool" where
  "userpass_char c =
     (isalphaW c \<or> isdigitW c \<or>
      c \<in> set [59, QMARK, 38, 61, 33, STAR, 39, 40, 41, 44, 36, 95, 43, 45, DOT, SPACE])"

definition hostname_char :: "wchar \<Rightarrow> bool" where
  "hostname_char c = (isalnumW c \<or> c = 45 \<or> c = DOT \<or> c = SPACE \<or> c = STAR)"

text \<open>
  The \<^verbatim>\<open>USERPASS\<close> loop of \<^verbatim>\<open>scan_url\<close> on the string that starts at \<^verbatim>\<open>start\<close>:
  the number of units passed over. An escape counts three units when two hexadecimal
  digits follow the percent sign, and ends the run otherwise.
\<close>

fun scan_userpass :: "wstr \<Rightarrow> nat" where
  "scan_userpass [] = 0"
| "scan_userpass (c # cs) =
     (if c = 0 then 0
      else if userpass_char c then 1 + scan_userpass cs
      else if c = PERCENT then
        (case cs of
           h # l # rest \<Rightarrow> if isxdigitW h \<and> isxdigitW l then 3 + scan_userpass rest else 0
         | _ \<Rightarrow> 0)
      else 0)"

text \<open>
  \<^verbatim>\<open>scan_url(start, &size, type)\<close> on the string at \<^verbatim>\<open>start\<close>: the number of units
  by which the returned pointer lies behind \<^verbatim>\<open>start\<close>, and \<^verbatim>\<open>*size\<close>.
\<close>

definition scan_url :: "wstr \<Rightarrow> url_scan_type \<Rightarrow> nat \<times> nat" where
  "scan_url s type =
     (case type of
        SCHEME \<Rightarrow>
          (let n = length (takeWhile scheme_char s) in
           (n, if at s n \<noteq> COLON then 0 else n))
      | USERPASS \<Rightarrow> (let n = scan_userpass s in (n, n))
      | PORT \<Rightarrow> (let n = length (takeWhile isdigitW s) in (n, n))
      | HOST \<Rightarrow> (let n = length (takeWhile hostname_char s) in (n, n)))"

text \<open>
  \<^verbatim>\<open>struct parsed_url\<close>: each pointer is an offset into the URL, \<open>None\<close> for NULL.
\<close>

record parsed_url =
  scheme :: "nat option"
  scheme_len :: nat
  username :: "nat option"
  username_len :: nat
  password :: "nat option"
  password_len :: nat
  hostname :: "nat option"
  hostname_len :: nat
  port :: "nat option"
  port_len :: nat
  query :: "nat option"
  query_len :: nat

definition parsed_url_zero :: parsed_url where
  "parsed_url_zero =
     \<lparr>scheme = None, scheme_len = 0, username = None, username_len = 0,
      password = None, password_len = 0, hostname = None, hostname_len = 0,
      port = None, port_len = 0, query = None, query_len = 0\<rparr>"

text \<open>The part of \<^verbatim>\<open>parse_url\<close> from ``now start parsing hostname or hostnumber''.\<close>

definition parse_host :: "wstr \<Rightarrow> nat \<Rightarrow> parsed_url \<Rightarrow> parsed_url" where
  "parse_host url work pl =
     (let h = work + 1;
          (hn, hsz) = scan_url (drop h url) HOST;
          pl1 = pl\<lparr>hostname := Some h, hostname_len := hsz\<rparr>;
          w1 = h + hn;
          (pl2, w2) =
            (if at url w1 = COLON then
               (let (pn, psz) = scan_url (drop (w1 + 1) url) PORT
                in (pl1\<lparr>port := Some (w1 + 1), port_len := psz\<rparr>, w1 + 1 + pn))
             else (pl1, w1))
      in if at url w2 = FSL then
           (let q = w2 + length (takeWhile (\<lambda>c. c \<noteq> QMARK) (drop w2 url)) in
            if at url q = QMARK
            then pl2\<lparr>query := Some q, query_len := length url - q\<rparr>
            else pl2)
         else pl2)"

text \<open>
  \<^verbatim>\<open>parse_url\<close>: the status and the structure as the call leaves it, also on the error
  exit.
\<close>

definition parse_url :: "wstr \<Rightarrow> hresult \<times> parsed_url" where
  "parse_url url0 =
     (let url = c_str url0;
          (sn, ssz) = scan_url url SCHEME;
          pl1 = parsed_url_zero\<lparr>scheme := Some 0, scheme_len := ssz\<rparr>
      in if at url sn = 0 \<or> at url sn \<noteq> COLON then (E_INVALIDARG, pl1)
         else if at url (sn + 1) \<noteq> FSL \<or> at url (sn + 2) \<noteq> FSL then (S_OK, pl1)
         else
           (let u = sn + 3;
                (un, usz) = scan_url (drop u url) USERPASS;
                pl2 = pl1\<lparr>username := Some u, username_len := usz\<rparr>;
                w = u + un;
                reset = (\<lambda>pl. pl\<lparr>username_len := 0, password_len := 0,
                                   username := None, password := None\<rparr>)
            in if at url w = COLON then
                 (let pw = w + 1;
                      (pn, psz) = scan_url (drop pw url) USERPASS;
                      pl3 = pl2\<lparr>password := Some pw, password_len := psz\<rparr>;
                      w2 = pw + pn
                  in if at url w2 \<noteq> ATSIGN then (S_OK, parse_host url (u - 1) (reset pl3))
                     else (S_OK, parse_host url w2 pl3))
               else if at url w = ATSIGN then
                 (S_OK, parse_host url w (pl2\<lparr>password_len := 0, password := None\<rparr>))
               else if at url w = 0 \<or> at url w = FSL \<or> at url w = DOT then
                 (S_OK, parse_host url (u - 1) (reset pl2))
               else (E_INVALIDARG, pl2)))"

section \<open>Notions used to state the properties\<close>

text \<open>
  A drive-absolute string, the canonical form before the extended-length promotion, and
  the condition under which \<^verbatim>\<open>PathAllocCanonicalize\<close> promotes it.
\<close>

text \<open>The string with the backslash that \<^verbatim>\<open>PathCchAddBackslash\<close> appends when it is missing.\<close>

definition with_backslash :: "wstr \<Rightarrow> wstr" where
  "with_backslash s = (if s \<noteq> [] \<and> last s \<noteq> BSL then s @ [BSL] else s)"

definition drive_absolute :: "wstr \<Rightarrow> bool" where
  "drive_absolute s = (isalphaW (at s 0) \<and> at s 1 = COLON)"

definition canonical_form :: "wstr \<Rightarrow> dword \<Rightarrow> wstr" where
  "canonical_form path flags =
     c_str (canon_scan (c_str path)
       (if has flags PATHCCH_ENSURE_IS_EXTENDED_LENGTH_PATH
        then flags OR PATHCCH_DO_NOT_NORMALIZE_SEGMENTS else flags))"

definition promoted :: "dword \<Rightarrow> wstr \<Rightarrow> bool" where
  "promoted flags s =
     (drive_absolute s \<and>
      (MAX_PATH < length s + 1 \<or> has flags PATHCCH_ENSURE_IS_EXTENDED_LENGTH_PATH) \<and>
      \<not> has flags PATHCCH_FORCE_ENABLE_LONG_NAME_PROCESS)"

section \<open>Facts about buffers and the scan\<close>

subsection \<open>Buffer lemmas\<close>

lemma length_store [simp]: "length (store b i xs) = length b"
  by (induction xs arbitrary: b i) auto

lemma at_update: "at (b[i := v]) j = (if j = i \<and> i < length b then v else at b j)"
  by (auto simp: at_def)

lemma at_store_below: "j < i \<Longrightarrow> at (store b i xs) j = at b j"
  by (induction xs arbitrary: b i) (auto simp: at_update)

lemma at_store_above: "i + length xs \<le> j \<Longrightarrow> at (store b i xs) j = at b j"
  by (induction xs arbitrary: b i) (auto simp: at_update)

lemma at_store_in:
  "i \<le> j \<Longrightarrow> j < i + length xs \<Longrightarrow> i + length xs \<le> length b \<Longrightarrow> at (store b i xs) j = xs ! (j - i)"
proof (induction xs arbitrary: b i)
  case Nil
  then show ?case by simp
next
  case (Cons x xs)
  show ?case
  proof (cases "j = i")
    case True
    then show ?thesis using Cons.prems by (simp add: at_store_below at_update)
  next
    case False
    then have "Suc i \<le> j" using Cons.prems by simp
    then show ?thesis using Cons.IH [of "Suc i" "b[i := x]"] Cons.prems False
      by (simp add: Suc_diff_le)
  qed
qed

lemma remove_segment_length [simp]: "length (fst (remove_segment b d)) = length b"
  by (induction d arbitrary: b) simp_all

lemma remove_segment_le: "snd (remove_segment b d) \<le> d"
proof (induction d arbitrary: b)
  case 0
  then show ?case by simp
next
  case (Suc d)
  show ?case using Suc [of "b[d := 0]"] by simp
qed

lemma remove_segment_zeroes:
  "at (fst (remove_segment b d)) i \<noteq> 0 \<Longrightarrow> at (fst (remove_segment b d)) i = at b i"
proof (induction d arbitrary: b)
  case 0
  then show ?case by simp
next
  case (Suc d)
  show ?case
  proof (cases "at b d = BSL")
    case True
    with Suc.prems show ?thesis by (simp add: at_update split: if_splits)
  next
    case False
    then have r: "remove_segment b (Suc d) = remove_segment (b[d := 0]) d" by simp
    with Suc.prems have nz: "at (fst (remove_segment (b[d := 0]) d)) i \<noteq> 0" by simp
    then have e: "at (fst (remove_segment (b[d := 0]) d)) i = at (b[d := 0]) i"
      by (rule Suc.IH)
    with nz have "at (b[d := 0]) i \<noteq> 0" by simp
    then have "at (b[d := 0]) i = at b i" by (auto simp: at_update split: if_splits)
    with e r show ?thesis by simp
  qed
qed

lemma remove_segment_above:
  "d \<le> i \<Longrightarrow> at (fst (remove_segment b d)) i = at b i"
proof (induction d arbitrary: b)
  case 0
  then show ?case by simp
next
  case (Suc d)
  then show ?case using Suc.IH [of "b[d := 0]"] by (simp add: at_update)
qed


subsection \<open>The branches of one iteration\<close>

lemma canon_step_cases [case_names copy1 copy2 remove2 skip3 skip2 remove1 skip1b skip1]:
  assumes "canon_step p flags st = copy_units p 1 st \<Longrightarrow> P"
    and "\<lbrakk>at p (src st) = DOT; at p (src st + 1) = DOT;
          canon_step p flags st = copy_units p 2 st\<rbrakk> \<Longrightarrow> P"
    and "\<And>b' d'. \<lbrakk>at p (src st) = DOT; at p (src st + 1) = DOT; above_root st;
          remove_segment ((buffer st)[dst st - 1 := 0]) (dst st - 1) = (b', d');
          canon_step p flags st
            = complete_root p (st\<lparr>buffer := b', dst := d', src := src st + 2\<rparr>)\<rbrakk> \<Longrightarrow> P"
    and "\<lbrakk>at p (src st) = DOT; at p (src st + 1) = DOT; at p (src st + 2) = BSL;
          canon_step p flags st = complete_root p (st\<lparr>src := src st + 3\<rparr>)\<rbrakk> \<Longrightarrow> P"
    and "\<lbrakk>at p (src st) = DOT; at p (src st + 1) = DOT;
          canon_step p flags st = complete_root p (st\<lparr>src := src st + 2\<rparr>)\<rbrakk> \<Longrightarrow> P"
    and "\<lbrakk>at p (src st) = DOT; above_root st;
          canon_step p flags st
            = complete_root p (st\<lparr>dst := dst st - 1, src := src st + 1\<rparr>)\<rbrakk> \<Longrightarrow> P"
    and "\<lbrakk>at p (src st) = DOT; at p (src st + 1) = BSL;
          canon_step p flags st = complete_root p (st\<lparr>src := src st + 2\<rparr>)\<rbrakk> \<Longrightarrow> P"
    and "\<lbrakk>at p (src st) = DOT;
          canon_step p flags st = complete_root p (st\<lparr>src := src st + 1\<rparr>)\<rbrakk> \<Longrightarrow> P"
  shows P
proof (cases "at p (src st) = DOT")
  case False
  then have "canon_step p flags st = copy_units p 1 st"
    by (simp add: canon_step_def Let_def)
  then show ?thesis by (rule assms(1))
next
  case d1: True
  show ?thesis
  proof (cases "at p (src st + 1) = DOT")
    case d2: True
    obtain b' d' where r: "remove_segment ((buffer st)[dst st - 1 := 0]) (dst st - 1) = (b', d')"
      by (cases "remove_segment ((buffer st)[dst st - 1 := 0]) (dst st - 1)")
    let ?A = "dst st > 0 \<and> at (buffer st) (dst st - 1) = STAR"
    let ?B = "dst st > 0 \<and> ((has flags PATHCCH_DO_NOT_NORMALIZE_SEGMENTS \<and> at (buffer st) (dst st - 1) \<noteq> BSL) \<or>
                      (at (buffer st) (dst st - 1) \<noteq> BSL \<and> at p (src st + 2) \<noteq> BSL \<and> at p (src st + 2) \<noteq> 0))"
    have eq: "canon_step p flags st =
        (if ?A then copy_units p 1 st
         else if ?B then copy_units p 2 st
         else if above_root st
           then complete_root p (st\<lparr>buffer := b', dst := d', src := src st + 2\<rparr>)
         else if at p (src st + 2) = BSL then complete_root p (st\<lparr>src := src st + 3\<rparr>)
         else complete_root p (st\<lparr>src := src st + 2\<rparr>))"
      unfolding canon_step_def Let_def r by (simp only: d1 d2 simp_thms if_True split_conv)
    show ?thesis
    proof (cases ?A)
      case A: True
      have "canon_step p flags st = copy_units p 1 st"
        unfolding eq by (simp only: if_P [OF A])
      then show ?thesis by (rule assms(1))
    next
      case nA: False
      show ?thesis
      proof (cases ?B)
        case B: True
        have "canon_step p flags st = copy_units p 2 st"
          unfolding eq by (simp only: if_not_P [OF nA] if_P [OF B])
        then show ?thesis using assms(2) d1 d2 by blast
      next
        case nB: False
        show ?thesis
        proof (cases "above_root st")
          case R: True
          have "canon_step p flags st
            = complete_root p (st\<lparr>buffer := b', dst := d', src := src st + 2\<rparr>)"
            unfolding eq by (simp only: if_not_P [OF nA] if_not_P [OF nB] if_P [OF R])
          then show ?thesis using assms(3) d1 d2 r R by blast
        next
          case nR: False
          show ?thesis
          proof (cases "at p (src st + 2) = BSL")
            case S: True
            have "canon_step p flags st = complete_root p (st\<lparr>src := src st + 3\<rparr>)"
              unfolding eq by (simp only: if_not_P [OF nA] if_not_P [OF nB] if_not_P [OF nR] if_P [OF S])
            then show ?thesis using assms(4) d1 d2 S by blast
          next
            case nS: False
            have "canon_step p flags st = complete_root p (st\<lparr>src := src st + 2\<rparr>)"
              unfolding eq by (simp only: if_not_P [OF nA] if_not_P [OF nB] if_not_P [OF nR] if_not_P [OF nS])
            then show ?thesis using assms(5) d1 d2 by blast
          qed
        qed
      qed
    qed
  next
    case nd2: False
    let ?A = "dst st > 0 \<and> ((has flags PATHCCH_DO_NOT_NORMALIZE_SEGMENTS \<and> at (buffer st) (dst st - 1) \<noteq> BSL) \<or>
                      (at (buffer st) (dst st - 1) \<noteq> BSL \<and> at p (src st + 1) \<noteq> BSL \<and> at p (src st + 1) \<noteq> 0) \<or>
                      at (buffer st) (dst st - 1) = STAR)"
    have eq: "canon_step p flags st =
        (if ?A then copy_units p 1 st
         else if above_root st then complete_root p (st\<lparr>dst := dst st - 1, src := src st + 1\<rparr>)
         else if at p (src st + 1) = BSL then complete_root p (st\<lparr>src := src st + 2\<rparr>)
         else complete_root p (st\<lparr>src := src st + 1\<rparr>))"
      unfolding canon_step_def Let_def by (simp only: d1 nd2 simp_thms if_True if_False)
    show ?thesis
    proof (cases ?A)
      case A: True
      have "canon_step p flags st = copy_units p 1 st"
        unfolding eq by (simp only: if_P [OF A])
      then show ?thesis by (rule assms(1))
    next
      case nA: False
      show ?thesis
      proof (cases "above_root st")
        case R: True
        have "canon_step p flags st
            = complete_root p (st\<lparr>dst := dst st - 1, src := src st + 1\<rparr>)"
          unfolding eq by (simp only: if_not_P [OF nA] if_P [OF R])
        then show ?thesis using assms(6) d1 R by blast
      next
        case nR: False
        show ?thesis
        proof (cases "at p (src st + 1) = BSL")
          case S: True
          have "canon_step p flags st = complete_root p (st\<lparr>src := src st + 2\<rparr>)"
            unfolding eq by (simp only: if_not_P [OF nA] if_not_P [OF nR] if_P [OF S])
          then show ?thesis using assms(7) d1 S by blast
        next
          case nS: False
          have "canon_step p flags st = complete_root p (st\<lparr>src := src st + 1\<rparr>)"
            unfolding eq by (simp only: if_not_P [OF nA] if_not_P [OF nR] if_not_P [OF nS])
          then show ?thesis using assms(8) d1 by blast
        qed
      qed
    qed
  qed
qed


subsection \<open>The output never overtakes the input\<close>

definition scan_inv :: "wstr \<Rightarrow> cstate \<Rightarrow> bool" where
  "scan_inv p st \<longleftrightarrow>
     length (buffer st) = length p + 6 \<and> dst st \<le> src st \<and> src st \<le> length p \<and>
     (\<forall>i \<ge> src st. at (buffer st) i = 0)"

lemma at_succ_bound: "at p i \<noteq> 0 \<Longrightarrow> Suc i \<le> length p"
  using at_nonzero_less [of p i] by simp

lemma scan_inv_copy:
  assumes "scan_inv p st" and "src st + n \<le> length p"
  shows "scan_inv p (copy_units p n st)"
  using assms by (simp add: scan_inv_def copy_units_def at_store_above)

lemma scan_inv_complete:
  assumes "scan_inv p st" and "at (buffer st) 1 \<noteq> 0 \<longrightarrow> 3 \<le> src st"
  shows "scan_inv p (complete_root p st)"
proof (cases "isalphaW (at (buffer st) 0) \<and> at (buffer st) 1 = COLON \<and> at (buffer st) 2 \<noteq> BSL")
  case False
  then show ?thesis using assms(1) by (auto simp: complete_root_def Let_def)
next
  case True
  then have s3: "3 \<le> src st" using assms(2) by auto
  have "at p (src st) = BSL \<Longrightarrow> Suc (src st) \<le> length p"
    by (rule at_succ_bound) simp
  then show ?thesis using True assms(1) s3
    by (auto simp: complete_root_def Let_def scan_inv_def at_update)
qed

lemma scan_inv_shrink:
  assumes "scan_inv p st" and "length b' = length (buffer st)"
    and "\<And>i. at b' i \<noteq> 0 \<Longrightarrow> at (buffer st) i \<noteq> 0"
    and "d' \<le> dst st" and "src st < s'" and "s' \<le> length p"
    and "buffer st' = b'" and "dst st' = d'" and "src st' = s'"
  shows "scan_inv p (complete_root p st')"
proof (rule scan_inv_complete)
  show "scan_inv p st'"
    unfolding scan_inv_def
  proof (intro conjI allI impI)
    show "length (buffer st') = length p + 6" using assms by (simp add: scan_inv_def)
    show "dst st' \<le> src st'" using assms by (simp add: scan_inv_def)
    show "src st' \<le> length p" using assms by simp
    fix i assume "src st' \<le> i"
    then have "at (buffer st) i = 0" using assms by (simp add: scan_inv_def)
    then show "at (buffer st') i = 0" using assms(3) [of i] assms(7) by auto
  qed
  show "at (buffer st') 1 \<noteq> 0 \<longrightarrow> 3 \<le> src st'"
  proof
    assume "at (buffer st') 1 \<noteq> 0"
    then have "at (buffer st) 1 \<noteq> 0" using assms(3) [of 1] assms(7) by simp
    then have "\<not> src st \<le> 1" using assms(1) by (auto simp: scan_inv_def)
    then show "3 \<le> src st'" using assms(5,9) by simp
  qed
qed

lemma scan_inv_step:
  assumes inv: "scan_inv p st" and nz: "at p (src st) \<noteq> 0"
  shows "scan_inv p (canon_step p flags st)"
proof (cases rule: canon_step_cases [of p flags st])
  case copy1
  then show ?thesis using scan_inv_copy [OF inv, of 1] at_succ_bound [OF nz] by simp
next
  case copy2
  then have "src st + 2 \<le> length p" using at_succ_bound [of p "src st + 1"] by simp
  then show ?thesis using copy2 scan_inv_copy [OF inv, of 2] by simp
next
  case (remove2 b' d')
  have b: "src st + 2 \<le> length p" using remove2(2) at_succ_bound [of p "src st + 1"] by simp
  have b': "b' = fst (remove_segment ((buffer st)[dst st - 1 := 0]) (dst st - 1))"
    and d': "d' = snd (remove_segment ((buffer st)[dst st - 1 := 0]) (dst st - 1))"
    using remove2(4) by simp_all
  have z: "\<And>i. at b' i \<noteq> 0 \<Longrightarrow> at (buffer st) i \<noteq> 0"
  proof -
    fix i assume a: "at b' i \<noteq> 0"
    then have "at b' i = at ((buffer st)[dst st - 1 := 0]) i"
      unfolding b' by (rule remove_segment_zeroes)
    with a show "at (buffer st) i \<noteq> 0" by (auto simp: at_update split: if_splits)
  qed
  have "d' \<le> dst st" unfolding d' using remove_segment_le [of "(buffer st)[dst st - 1 := 0]" "dst st - 1"]
    by simp
  then show ?thesis
    unfolding remove2(5)
    using scan_inv_shrink [where b' = b' and d' = d' and s' = "src st + 2" and st = st, OF inv _ z] b b' by simp
next
  case skip3
  have b: "src st + 3 \<le> length p" using skip3(3) at_succ_bound [of p "src st + 2"] by simp
  show ?thesis unfolding skip3(4)
    using scan_inv_shrink [where b' = "buffer st" and d' = "dst st" and s' = "src st + 3" and st = st, OF inv] b by simp
next
  case skip2
  have b: "src st + 2 \<le> length p" using skip2(2) at_succ_bound [of p "src st + 1"] by simp
  show ?thesis unfolding skip2(3)
    using scan_inv_shrink [where b' = "buffer st" and d' = "dst st" and s' = "src st + 2" and st = st, OF inv] b by simp
next
  case remove1
  have b: "src st + 1 \<le> length p" using at_succ_bound [OF nz] by simp
  show ?thesis unfolding remove1(3)
    using scan_inv_shrink [where b' = "buffer st" and d' = "dst st - 1" and s' = "src st + 1" and st = st, OF inv] b by simp
next
  case skip1b
  have b: "src st + 2 \<le> length p" using skip1b(2) at_succ_bound [of p "src st + 1"] by simp
  show ?thesis unfolding skip1b(3)
    using scan_inv_shrink [where b' = "buffer st" and d' = "dst st" and s' = "src st + 2" and st = st, OF inv] b by simp
next
  case skip1
  have b: "src st + 1 \<le> length p" using at_succ_bound [OF nz] by simp
  show ?thesis unfolding skip1(2)
    using scan_inv_shrink [where b' = "buffer st" and d' = "dst st" and s' = "src st + 1" and st = st, OF inv] b by simp
qed

lemma scan_inv_loop: "scan_inv p st \<Longrightarrow> scan_inv p (canon_loop p flags st)"
proof (induction p flags st rule: canon_loop.induct)
  case (1 p flags st)
  show ?case
  proof (cases "at p (src st) = 0")
    case True
    then show ?thesis using "1.prems" by (subst canon_loop.simps) simp
  next
    case False
    have "scan_inv p (canon_loop p flags (canon_step p flags st))"
      using "1.IH" [OF False] scan_inv_step [OF "1.prems" False] by blast
    then show ?thesis using False by (subst canon_loop.simps) simp
  qed
qed


subsection \<open>The state before the scan\<close>

lemma at_store:
  "at (store b i xs) j =
     (if i \<le> j \<and> j < i + length xs \<and> j < length b then xs ! (j - i) else at b j)"
proof (induction xs arbitrary: b i)
  case Nil
  then show ?case by auto
next
  case (Cons x xs)
  show ?case
  proof (cases "j = i")
    case True
    then show ?thesis by (simp add: at_store_below at_update)
  next
    case False
    then show ?thesis using Cons.IH [of "b[i := x]" "Suc i"]
      by (auto simp: at_update Suc_diff_le)
  qed
qed

lemma c_str_length_le: "at b n = 0 \<Longrightarrow> n < length b \<Longrightarrow> length (c_str b) \<le> n"
proof (induction b arbitrary: n)
  case Nil
  then show ?case by simp
next
  case (Cons x b)
  show ?case
  proof (cases n)
    case 0
    then show ?thesis using Cons.prems by (simp add: c_str_def at_def)
  next
    case (Suc m)
    then have "length (c_str b) \<le> m" using Cons.prems Cons.IH [of m] by (simp add: at_def)
    then show ?thesis using Suc by (simp add: c_str_def)
  qed
qed

lemma c_str_length [simp]: "length (c_str b) \<le> length b"
  by (simp add: c_str_def length_takeWhile_le)

lemma c_str_nth: "i < length (c_str b) \<Longrightarrow> c_str b ! i = b ! i \<and> b ! i \<noteq> 0"
  unfolding c_str_def using nth_length_takeWhile takeWhile_nth
  by (metis (mono_tags, lifting) nth_mem set_takeWhileD)

lemma at_drop: "at (drop k b) m = at b (k + m)"
  by (auto simp: at_def)

definition zeros_beyond :: "nat \<Rightarrow> wstr \<Rightarrow> bool" where
  "zeros_beyond n b \<longleftrightarrow> (\<forall>i \<ge> n. at b i = 0)"

lemma zeros_beyond_strcpy:
  assumes "zeros_beyond n b" and "to \<le> from"
  shows "zeros_beyond n (strcpyW b to from)"
  unfolding zeros_beyond_def
proof (intro allI impI)
  fix i assume i: "n \<le> i"
  let ?s = "c_str (drop from b)"
  show "at (strcpyW b to from) i = 0"
  proof (cases "to \<le> i \<and> i < to + length (?s @ [0]) \<and> i < length b")
    case False
    have "at (strcpyW b to from) i = at b i"
      unfolding strcpyW_def at_store by (simp only: if_not_P [OF False])
    then show ?thesis using assms(1) i by (simp add: zeros_beyond_def)
  next
    case True
    show ?thesis
    proof (cases "i - to < length ?s")
      case inside: True
      then have "?s ! (i - to) = drop from b ! (i - to)" and nz: "drop from b ! (i - to) \<noteq> 0"
        using c_str_nth [of "i - to" "drop from b"] by simp_all
      moreover have "i - to < length (drop from b)"
        using inside c_str_length [of "drop from b"] by linarith
      ultimately have "at b (from + (i - to)) \<noteq> 0"
        using at_drop [of "from" b "i - to"] by (simp add: at_def)
      moreover have "n \<le> from + (i - to)" using i assms(2) True by linarith
      ultimately show ?thesis using assms(1) by (simp add: zeros_beyond_def)
    next
      case False
      then have "(?s @ [0]) ! (i - to) = 0" using True by (simp add: nth_append)
      moreover have "at (strcpyW b to from) i = (?s @ [0]) ! (i - to)"
        unfolding strcpyW_def at_store by (simp only: if_P [OF True])
      ultimately show ?thesis by simp
    qed
  qed
qed

lemma strcpyW_length [simp]: "length (strcpyW b to from) = length b"
  by (simp add: strcpyW_def)

lemma strip_prefix_length [simp]: "length (snd (PathCchStripPrefix b sz)) = length b"
  by (simp add: PathCchStripPrefix_def)

lemma strip_prefix_zeros:
  "zeros_beyond n b \<Longrightarrow> zeros_beyond n (snd (PathCchStripPrefix b sz))"
  by (simp add: PathCchStripPrefix_def zeros_beyond_strcpy)


lemma at_eq_less: "at p i = c \<Longrightarrow> c \<noteq> 0 \<Longrightarrow> i < length p"
  using at_nonzero_less [of p i] by simp

lemma at_replicate_zero [simp]: "at (replicate n 0) i = 0"
  by (simp add: at_def)

lemma prefixed_unc_length: "is_prefixed_unc p \<Longrightarrow> 8 \<le> length (c_str p)"
proof -
  assume a: "is_prefixed_unc p"
  have "length (map tolowerW (take (length [BSL, BSL, QMARK, BSL, 85, 78, 67, BSL :: wchar]) (c_str p)))
      = length (map tolowerW [BSL, BSL, QMARK, BSL, 85, 78, 67, BSL :: wchar])"
    using a [unfolded is_prefixed_unc_def strncmpiW_eq_def] by (rule arg_cong)
  then show ?thesis by simp
qed

lemma prefixed_volume_last: "is_prefixed_volume p \<Longrightarrow> at p 47 = 125"
proof -
  assume "is_prefixed_volume p"
  then have "list_all (volume_guid_ok (drop 10 p)) [0 ..< 38]"
    by (simp add: is_prefixed_volume_def)
  then have "volume_guid_ok (drop 10 p) 37"
    by (simp add: list_all_iff)
  then show ?thesis by (simp add: volume_guid_ok_def at_drop)
qed

lemma get_root_end_bound:
  assumes "get_root_end p = Some r"
  shows "r < length p"
proof -
  have v: "is_prefixed_volume p \<Longrightarrow> 47 < length p"
    using prefixed_volume_last [of p] at_eq_less [of p 47 125] by simp
  have u: "is_prefixed_unc p \<Longrightarrow> 7 < length p"
    using prefixed_unc_length [of p] c_str_length [of p] by linarith
  have d: "is_prefixed_disk p \<Longrightarrow> 5 < length p"
    using at_eq_less [of p 5 COLON] by (simp add: is_prefixed_disk_def)
  have b: "\<And>i. at p i = BSL \<Longrightarrow> i < length p"
    using at_eq_less [of p _ BSL] by simp
  have c: "\<And>i. at p i = COLON \<Longrightarrow> i < length p"
    using at_eq_less [of p _ COLON] by simp
  show ?thesis
    using assms v u d b c
    by (auto simp: get_root_end_def split: if_splits)
qed

lemma strip_prefix_ok_long:
  assumes "PathCchStripPrefix b sz = (S_OK, b')"
  shows "at b 5 \<noteq> 0"
proof -
  have "is_prefixed_unc b \<or> is_prefixed_disk b"
    using assms by (auto simp: PathCchStripPrefix_def split: if_splits)
  then show ?thesis
  proof
    assume "is_prefixed_unc b"
    then have l: "5 < length (c_str b)" using prefixed_unc_length [of b] by simp
    then have "b ! 5 \<noteq> 0" using c_str_nth [of 5 b] by simp
    moreover have "5 < length b" using l c_str_length [of b] by linarith
    ultimately show ?thesis by (simp add: at_def)
  next
    assume "is_prefixed_disk b"
    then show ?thesis by (simp add: is_prefixed_disk_def)
  qed
qed

lemma zeros_beyond_c_str:
  "zeros_beyond n b \<Longrightarrow> n < length b \<Longrightarrow> length (c_str b) \<le> n"
  by (rule c_str_length_le) (simp_all add: zeros_beyond_def)

lemma scan_inv_copy_root: "scan_inv p (copy_root p)"
proof (cases "get_root_end p")
  case None
  then show ?thesis by (simp add: copy_root_def scan_inv_def Let_def at_def)
next
  case (Some r)
  let ?b = "store (replicate (length p + 6) 0) 0 (take (r + 1) p)"
  have r: "r < length p" using Some by (rule get_root_end_bound)
  have z: "zeros_beyond (r + 1) ?b"
    unfolding zeros_beyond_def by (simp add: at_store)
  obtain hr b' where sp: "PathCchStripPrefix ?b (length p + 6) = (hr, b')"
    by (cases "PathCchStripPrefix ?b (length p + 6)")
  have lb': "length b' = length p + 6"
    using strip_prefix_length [of ?b "length p + 6"] unfolding sp by simp
  have zb': "zeros_beyond (r + 1) b'"
    using strip_prefix_zeros [OF z, of "length p + 6"] unfolding sp by simp
  show ?thesis
  proof (cases "hr = S_OK")
    case False
    then show ?thesis using Some sp lb' zb' r
      by (simp add: copy_root_def Let_def scan_inv_def zeros_beyond_def)
  next
    case True
    then have "at ?b 5 \<noteq> 0" using sp strip_prefix_ok_long by blast
    then have r5: "5 < r + 1" using z by (auto simp: zeros_beyond_def not_le [symmetric])
    let ?b'' = "if isalphaW (at b' 0) \<and> at b' 1 = COLON \<and> at b' 2 \<noteq> BSL
                then b'[2 := BSL, 3 := 0] else b'"
    have lb'': "length ?b'' = length p + 6" using lb' by simp
    have zb'': "zeros_beyond (r + 1) ?b''"
      using zb' r5 by (auto simp: zeros_beyond_def at_update)
    have "length (c_str ?b'') \<le> r + 1"
      using zeros_beyond_c_str [OF zb''] lb'' r by simp
    then show ?thesis using Some sp True lb'' zb'' r
      by (simp add: copy_root_def Let_def scan_inv_def zeros_beyond_def)
  qed
qed


subsection \<open>The result of the scan fits the buffer\<close>

lemma canon_scan_length: "length (canon_scan p flags) = length p + 6"
  using scan_inv_loop [OF scan_inv_copy_root, of p flags]
  by (simp add: canon_scan_def Let_def scan_inv_def)

lemma c_str_not_nil: "at b 0 \<noteq> 0 \<Longrightarrow> c_str b \<noteq> []"
  by (cases b) (simp_all add: c_str_def at_def)

lemma canon_scan_c_str_length:
  "length (c_str (canon_scan p flags)) \<le> max 1 (length p)"
proof -
  let ?st = "canon_loop p flags (copy_root p)"
  let ?b = "(buffer ?st)[dst ?st := 0]"
  have inv: "scan_inv p ?st" using scan_inv_loop [OF scan_inv_copy_root] .
  then have d: "dst ?st \<le> length p" and l: "length (buffer ?st) = length p + 6"
    by (simp_all add: scan_inv_def)
  have "length (c_str ?b) \<le> dst ?st"
    by (rule c_str_length_le) (use d l in \<open>simp_all add: at_update\<close>)
  then have 1: "length (c_str ?b) \<le> length p" using d by simp
  have 2: "length (c_str (?b[0 := BSL, 1 := 0])) \<le> 1"
    by (rule c_str_length_le) (use l in \<open>simp_all add: at_update\<close>)
  show ?thesis using 1 2 by (simp add: canon_scan_def Let_def max_def)
qed

lemma canon_scan_nonempty: "at (canon_scan p flags) 0 \<noteq> 0"
  using scan_inv_loop [OF scan_inv_copy_root, of p flags]
  by (simp add: canon_scan_def Let_def scan_inv_def at_update)

lemma store_eq:
  "i + length xs \<le> length b \<Longrightarrow> store b i xs = take i b @ xs @ drop (i + length xs) b"
proof (induction xs arbitrary: b i)
  case Nil
  then show ?case by simp
next
  case (Cons x xs)
  have "store (b[i := x]) (Suc i) xs
      = take (Suc i) (b[i := x]) @ xs @ drop (Suc i + length xs) (b[i := x])"
    using Cons.prems by (intro Cons.IH) simp
  moreover have "take (Suc i) (b[i := x]) = take i b @ [x]"
    using Cons.prems by (simp add: take_Suc_conv_app_nth)
  ultimately show ?case by simp
qed

lemma c_str_zero_free: "0 \<notin> set (c_str b)"
  unfolding c_str_def by (auto dest: set_takeWhileD)

lemma c_str_append_zero: "0 \<notin> set xs \<Longrightarrow> c_str (xs @ 0 # ys) = xs"
  by (induction xs) (auto simp: c_str_def)

lemma c_str_take: "take (length (c_str b)) b = c_str b"
  unfolding c_str_def by (rule takeWhile_eq_take [symmetric])

lemma c_str_extend_path:
  assumes "length (c_str b) + 5 \<le> length b"
  shows "c_str (extend_path b) = [BSL, BSL, QMARK, BSL] @ c_str b"
proof -
  let ?xs = "[BSL, BSL, QMARK, BSL] @ c_str b"
  have "extend_path b = ?xs @ 0 # drop (length ?xs + 1) b"
    using assms store_eq [of 0 "?xs @ [0]" b] by (simp add: extend_path_def)
  moreover have "0 \<notin> set ?xs" using c_str_zero_free [of b] by simp
  ultimately show ?thesis using c_str_append_zero by metis
qed

lemma length_extend_path [simp]: "length (extend_path b) = length b"
  by (simp add: extend_path_def)

lemma at_c_str_last:
  assumes "c_str b \<noteq> []"
  shows "at b (length (c_str b) - 1) = last (c_str b)"
proof -
  have l: "length (c_str b) - 1 < length (c_str b)" using assms by simp
  then have "c_str b ! (length (c_str b) - 1) = b ! (length (c_str b) - 1)"
    using c_str_nth by blast
  moreover have "length (c_str b) - 1 < length b" using l c_str_length [of b] by linarith
  ultimately show ?thesis using assms by (simp add: at_def last_conv_nth)
qed

lemma c_str_add_backslash:
  assumes "length (c_str b) + 2 \<le> length b" and "length (c_str b) + 1 < sz"
  shows "c_str (snd (PathCchAddBackslashEx b sz)) = with_backslash (c_str b)"
proof (cases "c_str b \<noteq> [] \<and> last (c_str b) \<noteq> BSL")
  case False
  have "c_str b = [] \<or> at b (length (c_str b) - 1) = BSL"
  proof (cases "c_str b = []")
    case True then show ?thesis by simp
  next
    case ne: False
    then have "last (c_str b) = BSL" using False by simp
    then show ?thesis using at_c_str_last [OF ne] by simp
  qed
  then have "\<not> (sz \<noteq> 0 \<and> length (c_str b) \<noteq> 0 \<and> at b (length (c_str b) - 1) \<noteq> BSL)"
    by auto
  then have "snd (PathCchAddBackslashEx b sz) = b"
    by (auto simp: PathCchAddBackslashEx_def Let_def)
  then show ?thesis using False by (simp add: with_backslash_def)
next
  case True
  then have nt: "sz \<noteq> 0 \<and> length (c_str b) \<noteq> 0 \<and> at b (length (c_str b) - 1) \<noteq> BSL"
    using at_c_str_last [of b] assms(2) by auto
  moreover have "\<not> sz - 1 \<le> length (c_str b)" using assms(2) by linarith
  ultimately have "snd (PathCchAddBackslashEx b sz) = store b (length (c_str b)) [BSL, 0]"
    unfolding PathCchAddBackslashEx_def Let_def by (simp del: store.simps)
  also have "\<dots> = take (length (c_str b)) b @ [BSL, 0] @ drop (length (c_str b) + 2) b"
    using assms(1) store_eq [of "length (c_str b)" "[BSL, 0]" b] by simp
  also have "\<dots> = (c_str b @ [BSL]) @ 0 # drop (length (c_str b) + 2) b"
    by (simp add: c_str_take)
  finally have "c_str (snd (PathCchAddBackslashEx b sz)) = c_str b @ [BSL]"
    using c_str_append_zero [of "c_str b @ [BSL]"] c_str_zero_free [of b] by simp
  then show ?thesis using True by (simp add: with_backslash_def)
qed


lemma has_or_left: "has (a OR b) c \<longleftrightarrow> has a c \<or> has b c"
  by (simp add: has_def bit.conj_disj_distrib2 or_eq_0_iff)

lemma has_normalize_bit:
  "\<not> has PATHCCH_DO_NOT_NORMALIZE_SEGMENTS PATHCCH_ENSURE_IS_EXTENDED_LENGTH_PATH"
  "\<not> has PATHCCH_DO_NOT_NORMALIZE_SEGMENTS PATHCCH_FORCE_ENABLE_LONG_NAME_PROCESS"
  "\<not> has PATHCCH_DO_NOT_NORMALIZE_SEGMENTS PATHCCH_ENSURE_TRAILING_SLASH"
  by (simp_all add: has_def PATHCCH_DO_NOT_NORMALIZE_SEGMENTS_def
      PATHCCH_ENSURE_IS_EXTENDED_LENGTH_PATH_def PATHCCH_FORCE_ENABLE_LONG_NAME_PROCESS_def
      PATHCCH_ENSURE_TRAILING_SLASH_def)

lemma isalphaW_nonzero: "isalphaW c \<Longrightarrow> c \<noteq> 0"
  by (auto simp: isalphaW_def isupperW_def islowerW_def)

lemma c_str_two:
  assumes "at b 0 \<noteq> 0" and "at b 1 \<noteq> 0"
  shows "2 \<le> length (c_str b)"
proof -
  obtain x y rest where b: "b = x # y # rest"
    using assms by (cases b; cases "tl b") (auto simp: at_def)
  then show ?thesis using assms by (simp add: c_str_def at_def)
qed

lemma at_c_str_in:
  assumes "i < length (c_str b)"
  shows "at (c_str b) i = at b i"
proof -
  have "i < length b" using assms c_str_length [of b] by (rule order_less_le_trans)
  then show ?thesis using assms c_str_nth [of i b] by (simp add: at_def)
qed

lemma at_c_str: "at (c_str b) i \<noteq> 0 \<Longrightarrow> at b i = at (c_str b) i"
  using at_c_str_in [of i b] at_nonzero_less [of "c_str b" i] by simp

lemma drive_absolute_c_str:
  "drive_absolute (c_str b) \<longleftrightarrow> isalphaW (at b 0) \<and> at b 1 = COLON"
proof
  assume d: "drive_absolute (c_str b)"
  then have "at (c_str b) 0 \<noteq> 0" "at (c_str b) 1 \<noteq> 0"
    using isalphaW_nonzero by (auto simp: drive_absolute_def)
  then have "at b 0 = at (c_str b) 0" "at b 1 = at (c_str b) 1"
    using at_c_str by blast+
  then show "isalphaW (at b 0) \<and> at b 1 = COLON" using d by (simp add: drive_absolute_def)
next
  assume a: "isalphaW (at b 0) \<and> at b 1 = COLON"
  then have "2 \<le> length (c_str b)" using c_str_two [of b] isalphaW_nonzero by auto
  then have l: "0 < length (c_str b)" "1 < length (c_str b)" by linarith+
  have "at (c_str b) 0 = at b 0" "at (c_str b) 1 = at b 1"
    using l(1) apply (rule at_c_str_in)
    using l(2) apply (rule at_c_str_in)
    done
  then show "drive_absolute (c_str b)" using a by (simp add: drive_absolute_def)
qed

lemma drive_absolute_length: "drive_absolute s \<Longrightarrow> 2 \<le> length s"
  using at_eq_less [of s 1 COLON] by (simp add: drive_absolute_def)

subsection \<open>The shape of a successful result\<close>

lemma canonicalize_result_form:
  assumes "PathAllocCanonicalize path flags = Inr r"
  shows "r = (let s = canonical_form path flags;
                  e = (if promoted flags s then [BSL, BSL, QMARK, BSL] @ s else s)
              in if has flags PATHCCH_ENSURE_TRAILING_SLASH then with_backslash e else e)"
proof -
  define p where "p = c_str path"
  define f where "f = (if has flags PATHCCH_ENSURE_IS_EXTENDED_LENGTH_PATH
            then flags OR PATHCCH_DO_NOT_NORMALIZE_SEGMENTS else flags)"
  define b where "b = canon_scan p f"
  define s where "s = c_str b"
  define b1 where "b1 = (if needs_extension b f then extend_path b else b)"
  define b2 where "b2 = (if has f PATHCCH_ENSURE_TRAILING_SLASH
             then snd (PathCchAddBackslash b1 ((length p + 6) * 2)) else b1)"
  define e where "e = (if promoted flags s then [BSL, BSL, QMARK, BSL] @ s else s)"
  have r: "r = c_str b2"
    using assms unfolding b2_def b1_def b_def f_def p_def
    by (simp add: PathAllocCanonicalize_def Let_def split: if_splits)
  have hf: "has f PATHCCH_ENSURE_IS_EXTENDED_LENGTH_PATH = has flags PATHCCH_ENSURE_IS_EXTENDED_LENGTH_PATH"
    "has f PATHCCH_FORCE_ENABLE_LONG_NAME_PROCESS = has flags PATHCCH_FORCE_ENABLE_LONG_NAME_PROCESS"
    "has f PATHCCH_ENSURE_TRAILING_SLASH = has flags PATHCCH_ENSURE_TRAILING_SLASH"
    by (simp_all add: f_def has_or_left has_normalize_bit)
  have lb: "length b = length p + 6" unfolding b_def by (rule canon_scan_length)
  have ls: "length s \<le> max 1 (length p)" unfolding s_def b_def by (rule canon_scan_c_str_length)
  have ne: "needs_extension b f \<longleftrightarrow> promoted flags s"
    unfolding needs_extension_def promoted_def hf s_def drive_absolute_c_str by auto
  have cf: "canonical_form path flags = s"
    by (simp add: canonical_form_def s_def b_def f_def p_def)
  have lb1: "length b1 = length p + 6" using lb by (simp add: b1_def)
  have "c_str b1 = e \<and> length (c_str b1) + 2 \<le> length p + 6"
    proof (cases "promoted flags s")
      case True
      then have "2 \<le> length s" using drive_absolute_length by (simp add: promoted_def)
      then have l: "length s \<le> length p" using ls by simp
      then have x: "c_str (extend_path b) = [BSL, BSL, QMARK, BSL] @ s"
        using c_str_extend_path [of b] lb by (simp add: s_def)
      then have "c_str b1 = [BSL, BSL, QMARK, BSL] @ s" using True ne by (simp add: b1_def)
      then show ?thesis
        using True l by (simp add: e_def)
    next
      case False
      then have "c_str b1 = s" using ne by (simp add: b1_def s_def)
      then show ?thesis
        using False ls by (simp add: e_def)
    qed
  then have b1: "c_str b1 = e" and room: "length (c_str b1) + 2 \<le> length p + 6"
    by blast+
  have "r = (if has flags PATHCCH_ENSURE_TRAILING_SLASH then with_backslash e else e)"
  proof (cases "has flags PATHCCH_ENSURE_TRAILING_SLASH")
    case False
    then show ?thesis using r hf b1 by (simp add: b2_def)
  next
    case True
    have "length (c_str b1) + 1 < (length p + 6) * 2" using room by simp
    moreover have "length (c_str b1) + 2 \<le> length b1" using room lb1 by simp
    ultimately have "c_str (snd (PathCchAddBackslashEx b1 ((length p + 6) * 2))) = with_backslash (c_str b1)"
      using c_str_add_backslash [of b1] by blast
    then show ?thesis using True r hf b1 by (simp add: b2_def PathCchAddBackslash_def)
  qed
  then show ?thesis unfolding cf e_def Let_def .
qed

section \<open>Properties of the path canonicalization\<close>

lemma has_or: "has flags (a OR b) \<longleftrightarrow> has flags a \<or> has flags b"
  by (simp add: has_def bit.conj_disj_distrib or_eq_0_iff)

text \<open>
  Claim C5. Whatever the input path, \<^verbatim>\<open>PathAllocCanonicalize\<close> fails with
  \<^verbatim>\<open>E_INVALIDARG\<close> and leaves no output (the output pointer is NULL) when both Force
  flags are set, or the extended-length flag is set together with the long-paths flag, or
  a Force flag is set without the long-paths flag.
\<close>

theorem invalid_flag_combination_rejected:
  assumes "(has flags PATHCCH_FORCE_ENABLE_LONG_NAME_PROCESS \<and>
            has flags PATHCCH_FORCE_DISABLE_LONG_NAME_PROCESS)
        \<or> (has flags PATHCCH_ENSURE_IS_EXTENDED_LENGTH_PATH \<and> has flags PATHCCH_ALLOW_LONG_PATHS)
        \<or> ((has flags PATHCCH_FORCE_ENABLE_LONG_NAME_PROCESS \<or>
             has flags PATHCCH_FORCE_DISABLE_LONG_NAME_PROCESS) \<and>
            \<not> has flags PATHCCH_ALLOW_LONG_PATHS)"
  shows "PathAllocCanonicalize path flags = Inl E_INVALIDARG"
proof -
  from assms have "invalid_flags flags"
    unfolding invalid_flags_def has_or by blast
  then show ?thesis
    by (simp add: PathAllocCanonicalize_def)
qed

theorem invalid_flag_combination_rejected_witness:
  "has 0x02 PATHCCH_FORCE_ENABLE_LONG_NAME_PROCESS
   \<and> \<not> has 0x02 PATHCCH_ALLOW_LONG_PATHS
   \<and> PathAllocCanonicalize (W (''C:'' @ BS @ ''a'')) 0x02 = Inl E_INVALIDARG"
proof -
  have h: "has 0x02 PATHCCH_FORCE_ENABLE_LONG_NAME_PROCESS"
    "\<not> has 0x02 PATHCCH_ALLOW_LONG_PATHS"
    by (simp_all add: has_def PATHCCH_FORCE_ENABLE_LONG_NAME_PROCESS_def
        PATHCCH_ALLOW_LONG_PATHS_def)
  then show ?thesis
    using invalid_flag_combination_rejected [of "0x02" "W (''C:'' @ BS @ ''a'')"] by blast
qed

lemma canon_unc_share_dotdot:
  "PathAllocCanonicalize
     (W (BS @ BS @ ''?'' @ BS @ ''UNC'' @ BS @ ''server'' @ BS @ ''share'' @ BS @ ''..'' @ BS @ ''x'')) 0
   = Inr (W (BS @ BS @ ''server'' @ BS @ ''x''))"
  by code_simp

text \<open>
  Claim C2, as the code has it. Under default flags the input
  \<^verbatim>\<open>\\?\UNC\server\share\..\x\<close> becomes \<^verbatim>\<open>\\server\x\<close>: the device-UNC prefix is stripped
  down to \<^verbatim>\<open>\\\<close>, which alone is the root, and the \<^verbatim>\<open>..\<close> segment removes the
  \<^verbatim>\<open>share\<close> segment.
\<close>

theorem canonicalize_device_unc_dotdot:
  "PathAllocCanonicalize
     (W (BS @ BS @ ''?'' @ BS @ ''UNC'' @ BS @ ''server'' @ BS @ ''share'' @ BS @ ''..'' @ BS @ ''x'')) 0
   = Inr (W (BS @ BS @ ''server'' @ BS @ ''x''))"
  by (rule canon_unc_share_dotdot)

text \<open>The result is not \<^verbatim>\<open>\\server\share\x\<close>.\<close>

theorem canonicalize_device_unc_keeps_share_counterexample:
  "PathAllocCanonicalize
     (W (BS @ BS @ ''?'' @ BS @ ''UNC'' @ BS @ ''server'' @ BS @ ''share'' @ BS @ ''..'' @ BS @ ''x'')) 0
   \<noteq> Inr (W (BS @ BS @ ''server'' @ BS @ ''share'' @ BS @ ''x''))"
  unfolding canon_unc_share_dotdot by (simp add: W_def BS_def)

lemma canon_relative_ensure_extended:
  "PathAllocCanonicalize (W ''a'') PATHCCH_ENSURE_IS_EXTENDED_LENGTH_PATH = Inr (W ''a'')"
  "\<not> invalid_flags PATHCCH_ENSURE_IS_EXTENDED_LENGTH_PATH"
  "has PATHCCH_ENSURE_IS_EXTENDED_LENGTH_PATH PATHCCH_ENSURE_IS_EXTENDED_LENGTH_PATH"
  "\<not> has PATHCCH_ENSURE_IS_EXTENDED_LENGTH_PATH PATHCCH_FORCE_ENABLE_LONG_NAME_PROCESS"
  by code_simp+

lemma canon_drive_ensure_extended:
  "PathAllocCanonicalize (W ''C:a'') PATHCCH_ENSURE_IS_EXTENDED_LENGTH_PATH
     = Inr (W (BS @ BS @ ''?'' @ BS @ ''C:a''))"
  by code_simp

text \<open>
  Claim C6, as the code has it. Whenever \<^verbatim>\<open>PathAllocCanonicalize\<close> succeeds, its result is
  the canonical form \<open>s\<close> with \<^verbatim>\<open>\\?\\<close> in front exactly when \<open>s\<close> is drive-absolute
  and its length with the terminator exceeds \<^verbatim>\<open>MAX_PATH\<close> or the extended-length flag was
  given, and the force-enable flag is not set; otherwise it is \<open>s\<close> itself. In both cases
  a backslash is appended under the trailing-slash flag when it is missing.
\<close>

theorem extended_prefix_rule:
  assumes "PathAllocCanonicalize path flags = Inr r"
  shows "r = (let s = canonical_form path flags;
                  e = (if promoted flags s then [BSL, BSL, QMARK, BSL] @ s else s)
              in if has flags PATHCCH_ENSURE_TRAILING_SLASH then with_backslash e else e)"
  using assms by (rule canonicalize_result_form)

theorem extended_prefix_rule_witness:
  "PathAllocCanonicalize (W ''C:a'') PATHCCH_ENSURE_IS_EXTENDED_LENGTH_PATH
     = Inr (W (BS @ BS @ ''?'' @ BS @ ''C:a''))
   \<and> W (BS @ BS @ ''?'' @ BS @ ''C:a'')
     = (let s = canonical_form (W ''C:a'') PATHCCH_ENSURE_IS_EXTENDED_LENGTH_PATH;
            e = (if promoted PATHCCH_ENSURE_IS_EXTENDED_LENGTH_PATH s
                 then [BSL, BSL, QMARK, BSL] @ s else s)
        in if has PATHCCH_ENSURE_IS_EXTENDED_LENGTH_PATH PATHCCH_ENSURE_TRAILING_SLASH
           then with_backslash e else e)"
  using extended_prefix_rule [OF canon_drive_ensure_extended] canon_drive_ensure_extended
  by blast

text \<open>
  With the extended-length flag alone (a valid combination, force-enable not set) the
  relative path \<^verbatim>\<open>a\<close> comes back as \<^verbatim>\<open>a\<close>, without the prefix.
\<close>

theorem ensure_extended_relative_counterexample:
  "\<not> invalid_flags PATHCCH_ENSURE_IS_EXTENDED_LENGTH_PATH
   \<and> has PATHCCH_ENSURE_IS_EXTENDED_LENGTH_PATH PATHCCH_ENSURE_IS_EXTENDED_LENGTH_PATH
   \<and> \<not> has PATHCCH_ENSURE_IS_EXTENDED_LENGTH_PATH PATHCCH_FORCE_ENABLE_LONG_NAME_PROCESS
   \<and> PathAllocCanonicalize (W ''a'') PATHCCH_ENSURE_IS_EXTENDED_LENGTH_PATH = Inr (W ''a'')"
  using canon_relative_ensure_extended by blast

section \<open>Properties of the URL canonicalization\<close>

lemma url_userinfo_example_parts:
  "c_str (W ''HTTP://A:B@Host:80/p/../q'') = W ''HTTP://A:B@Host:80/p/../q''"
  "strip_tabs (W ''HTTP://A:B@Host:80/p/../q'') = W ''HTTP://A:B@Host:80/p/../q''"
  "u_flags (url_setup (W ''HTTP://A:B@Host:80/p/../q'') 0) = 0"
  "url_simplified (W ''HTTP://A:B@Host:80/p/../q'') 0 = W ''HTTP://A:B@Host:80/p/../q''"
  "length (W ''HTTP://A:B@Host:80/p/../q'') = 25"
  "W ''HTTP://A:B@Host:80/p/../q'' \<noteq> []"
  by code_simp+

text \<open>
  Claim C1, as the code has it. For the input \<^verbatim>\<open>HTTP://A:B@Host:80/p/../q\<close>, default
  flags and any buffer of more than 25 units, \<^verbatim>\<open>UrlCanonicalizeW\<close> succeeds and returns
  the input unchanged: the scheme keeps its upper case, the authority is kept, and the
  path is not collapsed, because the \<^verbatim>\<open>@\<close> ends the scan of the host and sends the rest
  of the URL through state 3, which copies it.
\<close>

theorem url_canonicalize_userinfo_unchanged:
  assumes "25 < n"
  shows "UrlCanonicalizeW (W ''HTTP://A:B@Host:80/p/../q'') n 0
         = (S_OK, Some (W ''HTTP://A:B@Host:80/p/../q''), 25)"
  using assms
  by (simp add: UrlCanonicalizeW_def url_userinfo_example_parts Let_def has_def)

theorem url_canonicalize_userinfo_unchanged_witness:
  "(25::nat) < 64 \<and> UrlCanonicalizeW (W ''HTTP://A:B@Host:80/p/../q'') 64 0
         = (S_OK, Some (W ''HTTP://A:B@Host:80/p/../q''), 25)"
  using url_canonicalize_userinfo_unchanged [of 64] by simp

text \<open>The string returned is not \<^verbatim>\<open>http://A:B@Host:80/q\<close>.\<close>

theorem url_canonicalize_lowercase_collapse_counterexample:
  "fst (snd (UrlCanonicalizeW (W ''HTTP://A:B@Host:80/p/../q'') 64 0))
     \<noteq> Some (W ''http://A:B@Host:80/q'')"
  by (simp add: UrlCanonicalizeW_def url_userinfo_example_parts Let_def has_def)
     (simp add: W_def)

end
